theory Spec2Isabelle
  imports Main "HOL-Library.Sublist" "HOL-Library.AList"
begin

section \<open>Strings\<close>

text \<open>
  Go strings are byte sequences; they are modelled as \<open>string\<close> (a list of \<open>char\<close>, one per
  byte). The two characters that cannot be written inside a literal get a name.
\<close>

definition bs :: char where
  "bs = CHR 0x5C"

definition dq :: char where
  "dq = CHR 0x22"

text \<open>\<^verbatim>\<open>quoteWindowsPath\<close> (main.go 284-286): the path between two double quotes, nothing escaped.\<close>

definition quoteWindowsPath :: "string \<Rightarrow> string" where
  "quoteWindowsPath path = [dq] @ path @ [dq]"

text \<open>
  \<^verbatim>\<open>strings.ReplaceAll(s, old, new)\<close>: the non-overlapping occurrences of \<open>old\<close> are replaced
  from left to right. With an empty \<open>old\<close> Go inserts \<open>new\<close> before every UTF-8 sequence and
  at the end, the function below before every byte and at the end; the program only passes the
  placeholder, which is not empty.
\<close>

function (sequential) ReplaceAll :: "string \<Rightarrow> string \<Rightarrow> string \<Rightarrow> string" where
  "ReplaceAll [] old new = (if old = [] then new else [])"
| "ReplaceAll (c # cs) old new =
     (if old = [] then new @ c # ReplaceAll cs old new
      else if prefix old (c # cs) then new @ ReplaceAll (drop (length old) (c # cs)) old new
      else c # ReplaceAll cs old new)"
  by pat_completeness auto
termination
  by (relation "measure (\<lambda>(s, old, new). length s)") auto

text \<open>\<^verbatim>\<open>strings.ContainsAny(s, chars)\<close>: some character of \<open>chars\<close> occurs in \<open>s\<close>.\<close>

definition ContainsAny :: "string \<Rightarrow> string \<Rightarrow> bool" where
  "ContainsAny s chars = (set s \<inter> set chars \<noteq> {})"

text \<open>\<^verbatim>\<open>strings.Join(elems, sep)\<close>.\<close>

fun Join :: "string list \<Rightarrow> string \<Rightarrow> string" where
  "Join [] sep = []"
| "Join [x] sep = x"
| "Join (x # y # ys) sep = x @ sep @ Join (y # ys) sep"

text \<open>The verb \<^verbatim>\<open>%d\<close> of \<^verbatim>\<open>fmt.Sprintf\<close>: decimal digits, a minus sign for a negative number.\<close>

fun digits :: "nat \<Rightarrow> string" where
  "digits n =
     (if n < 10 then [''0123456789'' ! n]
      else digits (n div 10) @ [''0123456789'' ! (n mod 10)])"

definition Sprintf_d :: "int \<Rightarrow> string" where
  "Sprintf_d i = (if i < 0 then ''-'' @ digits (nat (- i)) else digits (nat i))"

section \<open>The manifest\<close>

text \<open>
  The struct \<^verbatim>\<open>ContextMenu\<close> (main.go 185-194). It contains itself through \<^verbatim>\<open>Items\<close>, so
  it is a datatype with the fields as selectors. \<^verbatim>\<open>IconIndex\<close> is a pointer to an \<^verbatim>\<open>int\<close>:
  absent or a number (no arithmetic is done on it, it is only printed). \<^verbatim>\<open>Items\<close> is a Go
  map; the list holds its entries in the order in which the \<^verbatim>\<open>range\<close> loop of this run
  visits them. An entry of the map is a pointer, which is \<^verbatim>\<open>nil\<close> for a JSON \<^verbatim>\<open>null\<close>; the
  program then panics at line 31. Such manifests are not covered: every entry here is a menu.
\<close>

datatype ContextMenu = ContextMenu
  (Type: string)
  (Title: string)
  (IconPath: string)
  (IconIndex: "int option")
  (Extended: bool)
  (Admin: bool)
  (Command: "string list")
  (Items: "(string \<times> ContextMenu) list")

definition ContextMenuType_Item :: string where
  "ContextMenuType_Item = ''item''"

definition ContextMenuType_Folder :: string where
  "ContextMenuType_Folder = ''folder''"

definition manifestFolder :: string where
  "manifestFolder = ''${manifestFolder}''"

section \<open>Errors\<close>

text \<open>
  A Go error is either a Windows error number, \<^verbatim>\<open>os.ErrNotExist\<close>, or an error wrapped by
  \<^verbatim>\<open>fmt.Errorf("...: %w", err)\<close>. A wrapping keeps which message it is and the strings the
  message prints.
\<close>

type_synonym errno = nat

definition ENOENT :: errno where
  "ENOENT = 2"

definition ERROR_ACCESS_DENIED :: errno where
  "ERROR_ACCESS_DENIED = 5"

definition ERROR_KEY_DELETED :: errno where
  "ERROR_KEY_DELETED = 1018"

datatype wrapping =
    FailedToDeleteRegistryKey string
  | FailedToCreateRegistryKey string
  | FailedToSet string
  | FailedToCreateContextMenuID string
  | FailedToOpenKeyPath string
  | FailedToGetSubkeysOfPath string
  | FailedToDeleteSubkeyOfPath string string
  | FailedToDeleteKeyPath string
  | NircmdNotFound

datatype error = Errno errno | ErrNotExist | Wrap wrapping error

section \<open>The surroundings of the program\<close>

text \<open>
  What the program asks of the operating system and of the Go library, as far as the
  functions below need it: the working directory and the path of the executable (absent when
  the call fails), whether \<^verbatim>\<open>os.Stat\<close> succeeds on a path and finds no directory, the
  search of \<^verbatim>\<open>exec.LookPath\<close> (the path it returns and whether it returned no error),
  \<^verbatim>\<open>filepath.Join\<close> and \<^verbatim>\<open>filepath.Dir\<close>.
\<close>

record os_env =
  Getwd :: "string option"
  Executable :: "string option"
  StatFile :: "string \<Rightarrow> bool"
  LookPath :: "string \<Rightarrow> string \<times> bool"
  filepath_Join :: "string list \<Rightarrow> string"
  filepath_Dir :: "string \<Rightarrow> string"

text \<open>
  \<^verbatim>\<open>findNircmd\<close> (main.go 138-177). The package variable \<^verbatim>\<open>_nircmdPath\<close> is passed in and
  returned. The result is the pair of the named results \<^verbatim>\<open>nircmdPath\<close> and \<^verbatim>\<open>err\<close>; the
  deferred function stores \<^verbatim>\<open>nircmdPath\<close> in the variable on every return after line 149.
\<close>

definition probeNircmd :: "os_env \<Rightarrow> string \<times> error option" where
  "probeNircmd os =
     (let nircmdFilename = ''nircmd.exe'';
          wd = (case Getwd os of
                  None \<Rightarrow> None
                | Some fp \<Rightarrow>
                    if StatFile os (filepath_Join os [fp, nircmdFilename])
                    then Some (filepath_Join os [fp, nircmdFilename])
                    else if StatFile os (filepath_Join os [fp, ''bin'', nircmdFilename])
                    then Some (filepath_Join os [fp, ''bin'', nircmdFilename])
                    else None);
          ex = (case Executable os of
                  None \<Rightarrow> None
                | Some fp \<Rightarrow>
                    if StatFile os (filepath_Join os [filepath_Dir os fp, nircmdFilename])
                    then Some (filepath_Join os [filepath_Dir os fp, nircmdFilename])
                    else if StatFile os (filepath_Join os [filepath_Dir os fp, ''bin'', nircmdFilename])
                    then Some (filepath_Join os [filepath_Dir os fp, ''bin'', nircmdFilename])
                    else None)
      in case wd of
           Some p \<Rightarrow> (p, None)
         | None \<Rightarrow>
             (case ex of
                Some p \<Rightarrow> (p, None)
              | None \<Rightarrow>
                  (case LookPath os nircmdFilename of
                     (p, True) \<Rightarrow> (p, None)
                   | (p, False) \<Rightarrow> (p, Some (Wrap NircmdNotFound ErrNotExist)))))"

definition findNircmd :: "os_env \<Rightarrow> string \<Rightarrow> (string \<times> error option) \<times> string" where
  "findNircmd os nircmdPath_var =
     (if nircmdPath_var \<noteq> [] then ((nircmdPath_var, None), nircmdPath_var)
      else (probeNircmd os, fst (probeNircmd os)))"

section \<open>The attribute projections\<close>

text \<open>\<^verbatim>\<open>ContextMenu.Icon\<close> (main.go 207-218).\<close>

definition Icon :: "ContextMenu \<Rightarrow> string \<Rightarrow> string" where
  "Icon c manifestDir =
     (if IconPath c = [] then []
      else
        let iconPath = ReplaceAll (IconPath c) manifestFolder manifestDir;
            iconPath = quoteWindowsPath iconPath
        in case IconIndex c of
             None \<Rightarrow> iconPath
           | Some i \<Rightarrow> iconPath @ '','' @ Sprintf_d i)"

text \<open>
  \<^verbatim>\<open>ContextMenu.CommandString\<close> (main.go 220-241). The function returns a string only; when
  the helper is not found it calls \<^verbatim>\<open>log.Fatal\<close>, which prints the error and ends the
  process with \<^verbatim>\<open>os.Exit(1)\<close>. So the result is \<open>Inl err\<close> when the process is ended with
  \<open>err\<close> and \<open>Inr s\<close> when \<open>s\<close> is returned; the second component is \<^verbatim>\<open>_nircmdPath\<close>
  afterwards.
\<close>

definition appendPart :: "string \<Rightarrow> string list \<Rightarrow> string \<Rightarrow> string list" where
  "appendPart manifestDir command part =
     (let part = ReplaceAll part manifestFolder manifestDir;
          part = (if ContainsAny part '' %'' then quoteWindowsPath part else part)
      in command @ [part])"

definition CommandString ::
  "os_env \<Rightarrow> ContextMenu \<Rightarrow> string \<Rightarrow> string \<Rightarrow> (error + string) \<times> string" where
  "CommandString os c manifestDir nircmdPath_var =
     (let start =
            (if Admin c then
               (case findNircmd os nircmdPath_var of
                  ((nircmdPath, Some err), var) \<Rightarrow> (Inl err, var)
                | ((nircmdPath, None), var) \<Rightarrow>
                    (Inr [quoteWindowsPath nircmdPath, ''elevate''], var))
             else (Inr [], nircmdPath_var))
      in case start of
           (Inl err, var) \<Rightarrow> (Inl err, var)
         | (Inr command, var) \<Rightarrow>
             (Inr (Join (foldl (appendPart manifestDir) command (Command c)) '' ''), var))"

text \<open>
  The projection of one token in the words of the specification: the placeholder is
  replaced by the base directory, and the token is put between double quotes exactly when it
  then contains a space or a percent sign.
\<close>

definition projectToken :: "string \<Rightarrow> string \<Rightarrow> string" where
  "projectToken baseDir token =
     (let t = ReplaceAll token manifestFolder baseDir
      in if CHR '' '' \<in> set t \<or> CHR ''%'' \<in> set t then [dq] @ t @ [dq] else t)"

text \<open>Tokens joined by a single space, in the words of the specification.\<close>

fun joinedBySpace :: "string list \<Rightarrow> string" where
  "joinedBySpace [] = []"
| "joinedBySpace (t # ts) = t @ concat (map (\<lambda>u. CHR '' '' # u) ts)"

text \<open>
  The substitution in the words of the specification, stated without the function that
  performs it. A token is cut into pieces at occurrences of the placeholder: the pieces are
  free of the placeholder and the token is the pieces with the placeholder between them
  (\<open>between\<close>). Substituting the base directory puts the base directory between the same
  pieces.
\<close>

fun between :: "string \<Rightarrow> string list \<Rightarrow> string" where
  "between sep [] = []"
| "between sep [p] = p"
| "between sep (p # q # ps) = p @ sep @ between sep (q # ps)"

definition pieces_of :: "string \<Rightarrow> string list \<Rightarrow> bool" where
  "pieces_of token ps =
     (ps \<noteq> [] \<and> (\<forall>p \<in> set ps. \<not> sublist ''${manifestFolder}'' p)
      \<and> token = between ''${manifestFolder}'' ps)"

text \<open>
  A token is put between double quotes exactly when it contains a space or a percent sign.
\<close>

definition quotedIfNeeded :: "string \<Rightarrow> string" where
  "quotedIfNeeded t = (if CHR '' '' \<in> set t \<or> CHR ''%'' \<in> set t then [dq] @ t @ [dq] else t)"

section \<open>Example data\<close>

text \<open>
  A manifest directory \<^verbatim>\<open>C:\menu\<close>, a machine on which the helper is found in the
  \<^verbatim>\<open>bin\<close> folder of the working directory and one on which it is found nowhere, and three
  entries: one that asks for elevation, one whose command names a file below the manifest
  directory, and one with an icon and an icon index.
\<close>

definition join_backslash :: "string list \<Rightarrow> string" where
  "join_backslash xs = Join xs [bs]"

definition menu_dir :: string where
  "menu_dir = ''C:'' @ [bs] @ ''menu''"

definition os_with_helper :: os_env where
  "os_with_helper =
     \<lparr> Getwd = Some menu_dir, Executable = None,
       StatFile = (\<lambda>p. p = menu_dir @ [bs] @ ''bin'' @ [bs] @ ''nircmd.exe''),
       LookPath = (\<lambda>f. ([], False)),
       filepath_Join = join_backslash, filepath_Dir = (\<lambda>p. p) \<rparr>"

definition os_without_helper :: os_env where
  "os_without_helper =
     \<lparr> Getwd = Some menu_dir, Executable = None,
       StatFile = (\<lambda>p. False),
       LookPath = (\<lambda>f. ([], False)),
       filepath_Join = join_backslash, filepath_Dir = (\<lambda>p. p) \<rparr>"

definition helper_path :: string where
  "helper_path = menu_dir @ [bs] @ ''bin'' @ [bs] @ ''nircmd.exe''"

definition admin_item :: ContextMenu where
  "admin_item = ContextMenu ''item'' ''Shell'' [] None False True [''cmd.exe''] []"

definition run_bat_item :: ContextMenu where
  "run_bat_item =
     ContextMenu ''item'' ''Run'' [] None False False
       [''explorer.exe'', ''${manifestFolder}'' @ [bs] @ ''tools'' @ [bs] @ ''run.bat''] []"


section \<open>The registry\<close>

subsection \<open>Keys and values\<close>

text \<open>
  The program reaches the registry only through the package
  \<^verbatim>\<open>golang.org/x/sys/windows/registry\<close>, whose code is not part of the repository. What is
  written here is the behaviour of the Windows calls behind the six functions the program uses,
  on a registry owned by the program alone: a tree of keys, every key holding named values and
  named subkeys. The two kinds of value that the program writes are \<^verbatim>\<open>REG_SZ\<close> and
  \<^verbatim>\<open>REG_EXPAND_SZ\<close>. Both lists are association lists of \<^verbatim>\<open>HOL-Library.AList\<close>; the order of
  the subkeys is the order in which \<^verbatim>\<open>ReadSubKeyNames\<close> lists them.

  Names are compared by equality. Windows compares the names of keys and values without regard
  to case; two identifiers of one menu that differ only in case are one key there and two keys
  here.
\<close>

datatype regvalue = SZ string | EXPAND_SZ string

datatype regkey = RegKey (key_values: "(string \<times> regvalue) list") (key_subkeys: "(string \<times> regkey) list")

text \<open>
  A key is addressed by the list of the names on the way from the root. \<open>lookup\<close> follows
  the path, \<open>ensure\<close> creates every key of the path that is missing and leaves the existing
  ones as they are, \<open>remove\<close> takes the last key of the path out of its parent, and
  \<open>set_val\<close> writes one value of the key at the path.
\<close>

fun lookup :: "regkey \<Rightarrow> string list \<Rightarrow> regkey option" where
  "lookup k [] = Some k"
| "lookup k (n # ns) = (case map_of (key_subkeys k) n of None \<Rightarrow> None | Some c \<Rightarrow> lookup c ns)"

fun ensure :: "string list \<Rightarrow> regkey \<Rightarrow> regkey" where
  "ensure [] k = k"
| "ensure (n # ns) k =
     RegKey (key_values k)
       (AList.update n
          (ensure ns (case map_of (key_subkeys k) n of None \<Rightarrow> RegKey [] [] | Some c \<Rightarrow> c))
          (key_subkeys k))"

fun remove :: "string list \<Rightarrow> regkey \<Rightarrow> regkey" where
  "remove [] k = k"
| "remove [n] k = RegKey (key_values k) (AList.delete n (key_subkeys k))"
| "remove (n # m # ns) k =
     (case map_of (key_subkeys k) n of
        None \<Rightarrow> k
      | Some c \<Rightarrow> RegKey (key_values k) (AList.update n (remove (m # ns) c) (key_subkeys k)))"

fun set_val :: "string list \<Rightarrow> string \<Rightarrow> regvalue \<Rightarrow> regkey \<Rightarrow> regkey" where
  "set_val [] name v k = RegKey (AList.update name v (key_values k)) (key_subkeys k)"
| "set_val (n # ns) name v k =
     (case map_of (key_subkeys k) n of
        None \<Rightarrow> k
      | Some c \<Rightarrow> RegKey (key_values k) (AList.update n (set_val ns name v c) (key_subkeys k)))"

text \<open>
  The tree is observed through \<open>view\<close>: the values of the key at a path, or \<open>None\<close> when
  there is no such key. \<open>put_val\<close> is the write of one value on that side.
\<close>

definition put_val :: "string \<Rightarrow> regvalue \<Rightarrow> (string \<rightharpoonup> regvalue) \<Rightarrow> (string \<rightharpoonup> regvalue)" where
  "put_val name v m = m(name \<mapsto> v)"

definition view :: "regkey \<Rightarrow> string list \<Rightarrow> (string \<rightharpoonup> regvalue) option" where
  "view k p = map_option (\<lambda>c. map_of (key_values c)) (lookup k p)"

text \<open>
  In a well-formed registry the subkeys of a key have distinct names, and no name is empty or
  contains a backslash. \<open>height\<close> is the number of keys on the longest branch.
\<close>

definition valid_name :: "string \<Rightarrow> bool" where
  "valid_name n = (n \<noteq> [] \<and> bs \<notin> set n)"

fun wf_reg :: "regkey \<Rightarrow> bool" where
  "wf_reg (RegKey vs ks) = (distinct (map fst ks) \<and> (\<forall>x \<in> set ks. valid_name (fst x) \<and> wf_reg (snd x)))"

fun height :: "regkey \<Rightarrow> nat" where
  "height (RegKey vs ks) = Suc (fold max (map (\<lambda>x. height (snd x)) ks) 0)"

subsection \<open>Paths\<close>

text \<open>
  The calls take a path as one string with backslashes between the names. \<open>splitPath\<close> cuts
  it at every backslash and drops the empty pieces, so that a leading, a trailing or a doubled
  backslash addresses the same key as the path without it. The identifier of a menu reaches
  this function unchanged: an identifier with a backslash in it names a key further down.
\<close>

fun segments :: "string \<Rightarrow> string \<Rightarrow> string list" where
  "segments cur [] = (if cur = [] then [] else [cur])"
| "segments cur (c # cs) =
     (if c = bs then (if cur = [] then [] else [cur]) @ segments [] cs
      else segments (cur @ [c]) cs)"

definition splitPath :: "string \<Rightarrow> string list" where
  "splitPath path = segments [] path"

subsection \<open>The calls of the registry package\<close>

text \<open>
  A call is named by its kind and by the absolute path of the key it works on (for
  \<^verbatim>\<open>SetValue\<close> also the name of the value). The state of a run is the registry, the list of
  the calls made so far with the error number each one returned, and the package variable
  \<^verbatim>\<open>_nircmdPath\<close>. The list of calls is not in the source: it is kept so that the order of the
  calls can be stated.
\<close>

datatype adapter_op =
    OpOpenKey "string list"
  | OpReadSubKeyNames "string list"
  | OpDeleteKey "string list"
  | OpCreateKey "string list"
  | OpSetValue "string list" string

record state =
  reg :: regkey
  oplog :: "(adapter_op \<times> errno option) list"
  nircmdPath_var :: string

text \<open>
  A call can fail for a reason outside the tree (a key locked by another process, missing
  rights, a key removed by someone else between two calls). Such failures are a parameter: a
  function that gives, for a call, the error number it is to fail with. A call that is given
  none behaves as the tree says. \<open>adapter_call\<close> makes the choice and records the call.
\<close>

type_synonym faults = "adapter_op \<Rightarrow> errno option"

definition adapter_call ::
  "faults \<Rightarrow> adapter_op \<Rightarrow> (regkey \<Rightarrow> errno + 'a \<times> regkey) \<Rightarrow> state \<Rightarrow> (errno + 'a) \<times> state" where
  "adapter_call fault op f st =
     (case fault op of
        Some e \<Rightarrow> (Inl e, st\<lparr>oplog := oplog st @ [(op, Some e)]\<rparr>)
      | None \<Rightarrow>
          (case f (reg st) of
             Inl e \<Rightarrow> (Inl e, st\<lparr>oplog := oplog st @ [(op, Some e)]\<rparr>)
           | Inr (x, r) \<Rightarrow> (Inr x, st\<lparr>reg := r, oplog := oplog st @ [(op, None)]\<rparr>)))"

definition no_faults :: faults where
  "no_faults = (\<lambda>op. None)"

text \<open>
  An open key is represented by its absolute path; the predefined key
  \<^verbatim>\<open>registry.CURRENT_USER\<close> is the root. Closing a key has no effect on the tree and is left
  out.

  \<^item> \<^verbatim>\<open>registry.OpenKey(k, path, access)\<close>: \<^verbatim>\<open>ERROR_FILE_NOT_FOUND\<close> when there is no such
    key. This is the number 2, which the package \<^verbatim>\<open>syscall\<close> names \<^verbatim>\<open>ENOENT\<close> on Windows.
  \<^item> \<^verbatim>\<open>key.ReadSubKeyNames(0)\<close>: all names, in the order of the tree.
  \<^item> \<^verbatim>\<open>registry.DeleteKey(k, path)\<close>: a key with subkeys is not deleted
    (\<^verbatim>\<open>ERROR_ACCESS_DENIED\<close>), and neither is the root.
  \<^item> \<^verbatim>\<open>registry.CreateKey(k, path, access)\<close>: creates the key and the missing keys above it,
    opens it when it exists. The second result, whether the key existed, is ignored by the
    program and left out.
  \<^item> \<^verbatim>\<open>key.SetStringValue\<close> and \<^verbatim>\<open>key.SetExpandStringValue\<close>: write one value of an open
    key; on a key that was deleted in the meantime they fail with \<^verbatim>\<open>ERROR_KEY_DELETED\<close>.
\<close>

definition OpenKey :: "faults \<Rightarrow> state \<Rightarrow> string list \<Rightarrow> string \<Rightarrow> (errno + string list) \<times> state" where
  "OpenKey fault st k path =
     adapter_call fault (OpOpenKey (k @ splitPath path))
       (\<lambda>r. case lookup r (k @ splitPath path) of
               None \<Rightarrow> Inl ENOENT
             | Some c \<Rightarrow> Inr (k @ splitPath path, r)) st"

definition ReadSubKeyNames :: "faults \<Rightarrow> state \<Rightarrow> string list \<Rightarrow> (errno + string list) \<times> state" where
  "ReadSubKeyNames fault st key =
     adapter_call fault (OpReadSubKeyNames key)
       (\<lambda>r. case lookup r key of
               None \<Rightarrow> Inl ERROR_KEY_DELETED
             | Some c \<Rightarrow> Inr (map fst (key_subkeys c), r)) st"

definition DeleteKey :: "faults \<Rightarrow> state \<Rightarrow> string list \<Rightarrow> string \<Rightarrow> (errno + unit) \<times> state" where
  "DeleteKey fault st k path =
     adapter_call fault (OpDeleteKey (k @ splitPath path))
       (\<lambda>r. case lookup r (k @ splitPath path) of
               None \<Rightarrow> Inl ENOENT
             | Some c \<Rightarrow>
                 if k @ splitPath path = [] \<or> key_subkeys c \<noteq> [] then Inl ERROR_ACCESS_DENIED
                 else Inr ((), remove (k @ splitPath path) r)) st"

definition CreateKey :: "faults \<Rightarrow> state \<Rightarrow> string list \<Rightarrow> string \<Rightarrow> (errno + string list) \<times> state" where
  "CreateKey fault st k path =
     adapter_call fault (OpCreateKey (k @ splitPath path))
       (\<lambda>r. Inr (k @ splitPath path, ensure (k @ splitPath path) r)) st"

definition SetValue :: "faults \<Rightarrow> state \<Rightarrow> string list \<Rightarrow> string \<Rightarrow> regvalue \<Rightarrow> (errno + unit) \<times> state" where
  "SetValue fault st key name v =
     adapter_call fault (OpSetValue key name)
       (\<lambda>r. case lookup r key of
               None \<Rightarrow> Inl ERROR_KEY_DELETED
             | Some c \<Rightarrow> Inr ((), set_val key name v r)) st"

definition SetStringValue :: "faults \<Rightarrow> state \<Rightarrow> string list \<Rightarrow> string \<Rightarrow> string \<Rightarrow> (errno + unit) \<times> state" where
  "SetStringValue fault st key name v = SetValue fault st key name (SZ v)"

definition SetExpandStringValue :: "faults \<Rightarrow> state \<Rightarrow> string list \<Rightarrow> string \<Rightarrow> string \<Rightarrow> (errno + unit) \<times> state" where
  "SetExpandStringValue fault st key name v = SetValue fault st key name (EXPAND_SZ v)"

section \<open>The program\<close>

subsection \<open>Erasing a key\<close>

text \<open>
  \<^verbatim>\<open>deleteRegKeyRecursive\<close> (main.go 243-282). \<open>deleteSubKeys\<close> is the loop of lines
  265-270, with the recursive call as a parameter. The recursion of the source is on the
  registry, which a faulty call may report wrongly, so the function is defined by recursion on
  a number of nested calls that are still allowed; \<open>None\<close> means that this number was used
  up. \<open>deleteRegKeyRecursive\<close> starts with the height of the registry, which is shown
  below to be always enough.
\<close>

fun deleteSubKeys ::
  "(string \<Rightarrow> state \<Rightarrow> (error option \<times> state) option) \<Rightarrow> string \<Rightarrow> string list \<Rightarrow> state
     \<Rightarrow> (error option \<times> state) option" where
  "deleteSubKeys rec path [] st = Some (None, st)"
| "deleteSubKeys rec path (subKeyName # rest) st =
     (case rec subKeyName st of
        None \<Rightarrow> None
      | Some (Some err, st') \<Rightarrow>
          Some (Some (Wrap (FailedToDeleteSubkeyOfPath subKeyName path) err), st')
      | Some (None, st') \<Rightarrow> deleteSubKeys rec path rest st')"

primrec deleteRegKeyRecursive_fuel ::
  "nat \<Rightarrow> faults \<Rightarrow> string list \<Rightarrow> string \<Rightarrow> state \<Rightarrow> (error option \<times> state) option" where
  "deleteRegKeyRecursive_fuel 0 fault k path st = None"
| "deleteRegKeyRecursive_fuel (Suc n) fault k path st =
     (case OpenKey fault st k path of
        (Inl e, st1) \<Rightarrow>
          if e = ENOENT then Some (None, st1)
          else Some (Some (Wrap (FailedToOpenKeyPath path) (Errno e)), st1)
      | (Inr key, st1) \<Rightarrow>
          (case ReadSubKeyNames fault st1 key of
             (Inl e, st2) \<Rightarrow> Some (Some (Wrap (FailedToGetSubkeysOfPath path) (Errno e)), st2)
           | (Inr subKeyNames, st2) \<Rightarrow>
               (case deleteSubKeys (deleteRegKeyRecursive_fuel n fault key) path subKeyNames st2 of
                  None \<Rightarrow> None
                | Some (Some err, st3) \<Rightarrow> Some (Some err, st3)
                | Some (None, st3) \<Rightarrow>
                    (case DeleteKey fault st3 k path of
                       (Inl e, st4) \<Rightarrow>
                         if e = ENOENT then Some (None, st4)
                         else Some (Some (Wrap (FailedToDeleteKeyPath path) (Errno e)), st4)
                     | (Inr u, st4) \<Rightarrow> Some (None, st4)))))"

definition deleteRegKeyRecursive ::
  "faults \<Rightarrow> string list \<Rightarrow> string \<Rightarrow> state \<Rightarrow> (error option \<times> state) option" where
  "deleteRegKeyRecursive fault k path st =
     deleteRegKeyRecursive_fuel (height (reg st)) fault k path st"

subsection \<open>Creating a menu\<close>

text \<open>
  A run of the program ends in one of two ways: \<^verbatim>\<open>run\<close> returns (an error or \<^verbatim>\<open>nil\<close>) to
  \<^verbatim>\<open>main\<close>, or \<^verbatim>\<open>log.Fatal\<close> ends the process inside \<^verbatim>\<open>CommandString\<close> and nothing
  returns.
\<close>

datatype outcome = Returned "error option" | Exited error

definition CURRENT_USER :: "string list" where
  "CURRENT_USER = []"

definition shell_root :: string where
  "shell_root = ''Software'' @ [bs] @ ''Classes'' @ [bs] @ ''Directory'' @ [bs] @ ''Background''
                  @ [bs] @ ''shell''"

text \<open>
  \<^verbatim>\<open>createContextMenu\<close> (main.go 18-84), in four parts: lines 31-52 (\<open>setAttributes\<close>),
  lines 54-61 (\<open>createFolderKeys\<close>), lines 69-81 (\<open>createCommand\<close>) and the function
  itself with the loop of lines 62-67 (\<open>createSubMenus\<close>). The parameter \<^verbatim>\<open>id\<close> is called
  \<open>ident\<close>. Line 59 prints \<^verbatim>\<open>keyPath\<close>, not the path of the key it failed to create.
\<close>

definition setAttributes :: "faults \<Rightarrow> string list \<Rightarrow> ContextMenu \<Rightarrow> string \<Rightarrow> state \<Rightarrow> error option \<times> state" where
  "setAttributes fault key item manifestDir st =
     (case SetStringValue fault st key ''MUIVerb'' (Title item) of
        (Inl e, st1) \<Rightarrow> (Some (Wrap (FailedToSet ''MUIVerb'') (Errno e)), st1)
      | (Inr u, st1) \<Rightarrow>
     (case (if Icon item manifestDir \<noteq> []
            then SetStringValue fault st1 key ''Icon'' (Icon item manifestDir)
            else (Inr (), st1)) of
        (Inl e, st2) \<Rightarrow> (Some (Wrap (FailedToSet ''Icon'') (Errno e)), st2)
      | (Inr u, st2) \<Rightarrow>
     (case (if Extended item then SetStringValue fault st2 key ''Extended'' [] else (Inr (), st2)) of
        (Inl e, st3) \<Rightarrow> (Some (Wrap (FailedToSet ''Extended'') (Errno e)), st3)
      | (Inr u, st3) \<Rightarrow>
     (case (if Admin item then SetStringValue fault st3 key ''HasLUAShield'' [] else (Inr (), st3)) of
        (Inl e, st4) \<Rightarrow> (Some (Wrap (FailedToSet ''HasLUAShield'') (Errno e)), st4)
      | (Inr u, st4) \<Rightarrow> (None, st4)))))"

definition createFolderKeys :: "faults \<Rightarrow> string list \<Rightarrow> string \<Rightarrow> state \<Rightarrow> error option \<times> state" where
  "createFolderKeys fault key keyPath st =
     (case SetStringValue fault st key ''SubCommands'' [] of
        (Inl e, st1) \<Rightarrow> (Some (Wrap (FailedToSet ''SubCommands'') (Errno e)), st1)
      | (Inr u, st1) \<Rightarrow>
          (case CreateKey fault st1 CURRENT_USER (keyPath @ [bs] @ ''shell'') of
             (Inl e, st2) \<Rightarrow> (Some (Wrap (FailedToCreateRegistryKey keyPath) (Errno e)), st2)
           | (Inr k, st2) \<Rightarrow> (None, st2)))"

definition createCommand ::
  "faults \<Rightarrow> os_env \<Rightarrow> string \<Rightarrow> ContextMenu \<Rightarrow> string \<Rightarrow> state \<Rightarrow> (outcome \<times> state) option" where
  "createCommand fault os keyPath0 item manifestDir st =
     (let keyPath = keyPath0 @ [bs] @ ''command'' in
      case deleteRegKeyRecursive fault CURRENT_USER keyPath st of
        None \<Rightarrow> None
      | Some (Some err, st1) \<Rightarrow>
          Some (Returned (Some (Wrap (FailedToDeleteRegistryKey keyPath) err)), st1)
      | Some (None, st1) \<Rightarrow>
          (case CreateKey fault st1 CURRENT_USER keyPath of
             (Inl e, st2) \<Rightarrow>
               Some (Returned (Some (Wrap (FailedToCreateRegistryKey keyPath) (Errno e))), st2)
           | (Inr key, st2) \<Rightarrow>
               (case CommandString os item manifestDir (nircmdPath_var st2) of
                  (Inl err, var) \<Rightarrow> Some (Exited err, st2\<lparr>nircmdPath_var := var\<rparr>)
                | (Inr command, var) \<Rightarrow>
                    (case SetExpandStringValue fault (st2\<lparr>nircmdPath_var := var\<rparr>) key [] command of
                       (Inl e, st3) \<Rightarrow>
                         Some (Returned (Some (Wrap (FailedToSet ''command string'') (Errno e))), st3)
                     | (Inr u, st3) \<Rightarrow> Some (Returned None, st3)))))"

text \<open>
  The loop of \<^verbatim>\<open>run\<close> (main.go 104-109) over the entries of the manifest, with the body as a
  parameter.
\<close>

fun forItems ::
  "(string \<Rightarrow> ContextMenu \<Rightarrow> state \<Rightarrow> (outcome \<times> state) option) \<Rightarrow> (string \<times> ContextMenu) list
     \<Rightarrow> state \<Rightarrow> (outcome \<times> state) option" where
  "forItems body [] st = Some (Returned None, st)"
| "forItems body ((ident, item) # rest) st =
     (case body ident item st of
        None \<Rightarrow> None
      | Some (Returned None, st') \<Rightarrow> forItems body rest st'
      | Some (Returned (Some err), st') \<Rightarrow>
          Some (Returned (Some (Wrap (FailedToCreateContextMenuID ident) err)), st')
      | Some (Exited err, st') \<Rightarrow> Some (Exited err, st'))"

function createContextMenu ::
  "faults \<Rightarrow> os_env \<Rightarrow> string \<Rightarrow> string \<Rightarrow> ContextMenu \<Rightarrow> string \<Rightarrow> state \<Rightarrow> (outcome \<times> state) option"
and createSubMenus ::
  "faults \<Rightarrow> os_env \<Rightarrow> string \<Rightarrow> (string \<times> ContextMenu) list \<Rightarrow> string \<Rightarrow> state
     \<Rightarrow> (outcome \<times> state) option"
where
  "createContextMenu fault os parent ident item manifestDir st =
     (let keyPath = shell_root @ parent @ [bs] @ ident in
      case deleteRegKeyRecursive fault CURRENT_USER keyPath st of
        None \<Rightarrow> None
      | Some (Some err, st1) \<Rightarrow>
          Some (Returned (Some (Wrap (FailedToDeleteRegistryKey keyPath) err)), st1)
      | Some (None, st1) \<Rightarrow>
          (case CreateKey fault st1 CURRENT_USER keyPath of
             (Inl e, st2) \<Rightarrow>
               Some (Returned (Some (Wrap (FailedToCreateRegistryKey keyPath) (Errno e))), st2)
           | (Inr key, st2) \<Rightarrow>
               (case setAttributes fault key item manifestDir st2 of
                  (Some err, st3) \<Rightarrow> Some (Returned (Some err), st3)
                | (None, st3) \<Rightarrow>
                    if Type item = ContextMenuType_Folder then
                      (case createFolderKeys fault key keyPath st3 of
                         (Some err, st4) \<Rightarrow> Some (Returned (Some err), st4)
                       | (None, st4) \<Rightarrow>
                           createSubMenus fault os (parent @ [bs] @ ident @ [bs] @ ''shell'')
                             (Items item) manifestDir st4)
                    else createCommand fault os keyPath item manifestDir st3)))"
| "createSubMenus fault os parent [] manifestDir st = Some (Returned None, st)"
| "createSubMenus fault os parent ((subID, subItem) # rest) manifestDir st =
     (case createContextMenu fault os parent subID subItem manifestDir st of
        None \<Rightarrow> None
      | Some (Returned None, st') \<Rightarrow> createSubMenus fault os parent rest manifestDir st'
      | Some (Returned (Some err), st') \<Rightarrow>
          Some (Returned (Some (Wrap (FailedToCreateContextMenuID subID) err)), st')
      | Some (Exited err, st') \<Rightarrow> Some (Exited err, st'))"
  by pat_completeness auto

termination
  apply (relation "measure (\<lambda>x. case x of
           Inl (fault, os, parent, ident, item, manifestDir, st) \<Rightarrow> size item
         | Inr (fault, os, parent, items, manifestDir, st) \<Rightarrow>
             size_list (size_prod (\<lambda>x. 0) size) items)")
     apply auto
  subgoal for fault parent ident item
    by (cases item) simp
  done

declare createContextMenu.simps [simp del]

text \<open>
  \<^verbatim>\<open>run\<close> from line 104 on: the manifest has been found, read and parsed, and
  \<open>manifest_Items\<close> are its entries in the order in which the loop visits them.
\<close>

definition run :: "faults \<Rightarrow> os_env \<Rightarrow> (string \<times> ContextMenu) list \<Rightarrow> string \<Rightarrow> state \<Rightarrow> (outcome \<times> state) option" where
  "run fault os manifest_Items manifestDir st =
     forItems (\<lambda>ident item. createContextMenu fault os [] ident item manifestDir) manifest_Items st"

section \<open>Notions used in the statements\<close>

subsection \<open>The record of calls\<close>

text \<open>
  \<^verbatim>\<open>deleteRegKeyRecursive\<close> goes on after a call that succeeded, and after an \<^verbatim>\<open>OpenKey\<close>
  or a \<^verbatim>\<open>DeleteKey\<close> that failed with \<^verbatim>\<open>ENOENT\<close>; these are the tolerated entries of the
  record. \<open>root_cause\<close> is the innermost error of a chain of wrappings, \<open>op_path\<close> the
  path of a call.
\<close>

fun tolerated :: "adapter_op \<times> errno option \<Rightarrow> bool" where
  "tolerated (op, None) = True"
| "tolerated (OpOpenKey p, Some e) = (e = ENOENT)"
| "tolerated (OpDeleteKey p, Some e) = (e = ENOENT)"
| "tolerated (op, Some e) = False"

fun root_cause :: "error \<Rightarrow> error" where
  "root_cause (Wrap w e) = root_cause e"
| "root_cause e = e"

fun op_path :: "adapter_op \<Rightarrow> string list" where
  "op_path (OpOpenKey p) = p"
| "op_path (OpReadSubKeyNames p) = p"
| "op_path (OpDeleteKey p) = p"
| "op_path (OpCreateKey p) = p"
| "op_path (OpSetValue p name) = p"

text \<open>
  \<open>run_ok r es\<close>: the calls \<open>es\<close> explain the result \<open>r\<close>. With no error every call
  was tolerated; with an error the last call is the only one that was not, and its error number
  is the innermost error of \<open>r\<close>. \<open>out_ok\<close> is the same for the two ways a run ends.
  \<open>under P es\<close>: every call of \<open>es\<close> is on the key \<open>P\<close> or below it.
\<close>

definition run_ok :: "error option \<Rightarrow> (adapter_op \<times> errno option) list \<Rightarrow> bool" where
  "run_ok r es =
     (case r of
        None \<Rightarrow> list_all tolerated es
      | Some e \<Rightarrow>
          es \<noteq> [] \<and> list_all tolerated (butlast es) \<and> \<not> tolerated (last es)
          \<and> (\<exists>code. snd (last es) = Some code \<and> root_cause e = Errno code))"

fun out_ok :: "outcome \<Rightarrow> (adapter_op \<times> errno option) list \<Rightarrow> bool" where
  "out_ok (Returned r) es = run_ok r es"
| "out_ok (Exited e) es = list_all tolerated es"

definition under :: "string list \<Rightarrow> (adapter_op \<times> errno option) list \<Rightarrow> bool" where
  "under P es = list_all (\<lambda>x. prefix P (op_path (fst x))) es"

text \<open>
  The order of the deletions: \<open>delete_paths\<close> are the paths of the \<^verbatim>\<open>DeleteKey\<close> calls of
  a record, in order, and \<open>postorder\<close> says that after the deletion of a key no deletion of
  a key below it follows.
\<close>

fun delete_paths :: "(adapter_op \<times> errno option) list \<Rightarrow> string list list" where
  "delete_paths [] = []"
| "delete_paths ((OpDeleteKey p, r) # es) = p # delete_paths es"
| "delete_paths (x # es) = delete_paths es"

fun descendants_first :: "string list list \<Rightarrow> bool" where
  "descendants_first [] = True"
| "descendants_first (p # ps) = (list_all (\<lambda>q. \<not> strict_prefix p q) ps \<and> descendants_first ps)"

definition postorder :: "(adapter_op \<times> errno option) list \<Rightarrow> bool" where
  "postorder es = descendants_first (delete_paths es)"

text \<open>
  The path that a wrapping prints, and the wrapping that an iteration puts around the error of an
  entry.
\<close>

fun wrapping_path :: "wrapping \<Rightarrow> string option" where
  "wrapping_path (FailedToOpenKeyPath p) = Some p"
| "wrapping_path (FailedToGetSubkeysOfPath p) = Some p"
| "wrapping_path (FailedToDeleteSubkeyOfPath n p) = Some p"
| "wrapping_path (FailedToDeleteKeyPath p) = Some p"
| "wrapping_path (FailedToDeleteRegistryKey p) = Some p"
| "wrapping_path (FailedToCreateRegistryKey p) = Some p"
| "wrapping_path w = None"


subsection \<open>What a run changes\<close>

text \<open>
  \<open>shrinks_under P r r'\<close>: from \<open>r\<close> to \<open>r'\<close> keys have only disappeared, and only
  at \<open>P\<close> or below it. \<open>erased P v\<close> is a view with everything at \<open>P\<close> and below it
  taken away.
\<close>

definition shrinks_under :: "string list \<Rightarrow> regkey \<Rightarrow> regkey \<Rightarrow> bool" where
  "shrinks_under P r r' = (\<forall>q. view r' q = view r q \<or> (prefix P q \<and> view r' q = None))"

definition erased :: "string list \<Rightarrow> (string list \<Rightarrow> 'a option) \<Rightarrow> string list \<Rightarrow> 'a option" where
  "erased P v = (\<lambda>q. if prefix P q then None else v q)"

text \<open>
  What a call of \<^verbatim>\<open>deleteRegKeyRecursive\<close> on the key \<open>P\<close> does to a state, and what it
  records.
\<close>

definition erase_effect :: "string list \<Rightarrow> state \<Rightarrow> error option \<times> state \<Rightarrow> bool" where
  "erase_effect P st res =
     (nircmdPath_var (snd res) = nircmdPath_var st
      \<and> shrinks_under P (reg st) (reg (snd res))
      \<and> (wf_reg (reg st) \<longrightarrow> wf_reg (reg (snd res)))
      \<and> (\<exists>es. oplog (snd res) = oplog st @ es \<and> run_ok (fst res) es \<and> under P es))"

definition erase_trace :: "string list \<Rightarrow> state \<Rightarrow> error option \<times> state \<Rightarrow> bool" where
  "erase_trace P st res =
     (\<exists>es. oplog (snd res) = oplog st @ es \<and> postorder es \<and> under P es)"

text \<open>
  \<open>frame P r r'\<close>: outside of \<open>P\<close> and the keys below it nothing has changed from
  \<open>r\<close> to \<open>r'\<close>, except that a missing key above \<open>P\<close> may have been created, with no
  values. \<open>created_above P v\<close> is the view \<open>v\<close> with all those keys created.
\<close>

definition frame :: "string list \<Rightarrow> regkey \<Rightarrow> regkey \<Rightarrow> bool" where
  "frame P r r' =
     (\<forall>q. \<not> prefix P q \<longrightarrow>
            view r' q = view r q
            \<or> (view r q = None \<and> strict_prefix q P \<and> view r' q = Some Map.empty))"


definition install_effect :: "string list \<Rightarrow> state \<Rightarrow> outcome \<times> state \<Rightarrow> bool" where
  "install_effect P st res =
     (frame P (reg st) (reg (snd res))
      \<and> wf_reg (reg (snd res))
      \<and> (\<exists>es. oplog (snd res) = oplog st @ es \<and> out_ok (fst res) es))"

text \<open>
  The values that lines 31-52 write into a key, on the side of the view.
\<close>

definition attr_update :: "ContextMenu \<Rightarrow> string \<Rightarrow> (string \<rightharpoonup> regvalue) \<Rightarrow> (string \<rightharpoonup> regvalue)" where
  "attr_update item manifestDir m =
     (let m1 = put_val ''MUIVerb'' (SZ (Title item)) m;
          m2 = (if Icon item manifestDir \<noteq> [] then put_val ''Icon'' (SZ (Icon item manifestDir)) m1 else m1);
          m3 = (if Extended item then put_val ''Extended'' (SZ []) m2 else m2);
          m4 = (if Admin item then put_val ''HasLUAShield'' (SZ []) m3 else m3)
      in m4)"

text \<open>
  An entry without its children.
\<close>

definition without_Items :: "ContextMenu \<Rightarrow> ContextMenu" where
  "without_Items item =
     ContextMenu (Type item) (Title item) (IconPath item) (IconIndex item) (Extended item)
       (Admin item) (Command item) []"







subsection \<open>The order of the entries\<close>

text \<open>
  The entries of a manifest are a Go map, and the order in which a \<^verbatim>\<open>range\<close> loop visits a
  map is not fixed: it may differ from one loop to the next and from one run to the next.
  \<open>reordered xs ys\<close> says that \<open>ys\<close> holds the entries of \<open>xs\<close> in another order,
  the entries of every nested map being reordered as well. It is generated by the exchange of
  two neighbours with different identifiers; a map has no two entries with one identifier.
\<close>

inductive reordered :: "(string \<times> ContextMenu) list \<Rightarrow> (string \<times> ContextMenu) list \<Rightarrow> bool"
  and reordered_menu :: "ContextMenu \<Rightarrow> ContextMenu \<Rightarrow> bool" where
  reordered_Nil: "reordered [] []"
| reordered_Cons:
    "reordered_menu a b \<Longrightarrow> reordered xs ys \<Longrightarrow> reordered ((i, a) # xs) ((i, b) # ys)"
| reordered_Swap:
    "i \<noteq> j \<Longrightarrow> reordered ((i, a) # (j, b) # xs) ((j, b) # (i, a) # xs)"
| reordered_Trans:
    "reordered xs ys \<Longrightarrow> reordered ys zs \<Longrightarrow> reordered xs zs"
| reordered_Items:
    "reordered xs ys \<Longrightarrow>
       reordered_menu (ContextMenu ty ti ip ii ex ad cmd xs) (ContextMenu ty ti ip ii ex ad cmd ys)"



section \<open>Example registries\<close>

text \<open>
  The empty registry; an entry of no type with a child; a registry with the one key \<open>a\<close>;
  two failures of the deletion of that key, one as if the key had been removed by someone
  else in the meantime, one as if it were locked; a manifest of two entries; a manifest in which the identifier of
  one entry addresses a key below the key of the other; and a manifest whose first entry asks
  for elevation.
\<close>

definition clean_state :: state where
  "clean_state = \<lparr>reg = RegKey [] [], oplog = [], nircmdPath_var = []\<rparr>"

definition untyped_item :: ContextMenu where
  "untyped_item =
     ContextMenu [] ''Prompt'' [] None False False [''cmd.exe''] [(''child'', run_bat_item)]"

definition one_key_state :: state where
  "one_key_state = \<lparr>reg = RegKey [] [(''a'', RegKey [] [])], oplog = [], nircmdPath_var = []\<rparr>"

definition lost_race :: faults where
  "lost_race = (\<lambda>op. if op = OpDeleteKey [''a''] then Some ENOENT else None)"





section \<open>Properties of the projections\<close>

subsection \<open>The command string and the icon\<close>

lemma Join_append_space:
  "xs \<noteq> [] \<Longrightarrow> Join (xs @ [y]) '' '' = Join xs '' '' @ '' '' @ y"
  by (induction xs "'' ''" rule: Join.induct) auto

lemma Join_joinedBySpace: "Join xs '' '' = joinedBySpace xs"
proof (induction xs rule: rev_induct)
  case Nil
  show ?case by simp
next
  case (snoc y xs)
  show ?case
  proof (cases xs)
    case Nil
    then show ?thesis by simp
  next
    case (Cons a as)
    with snoc Join_append_space [of "a # as" y] show ?thesis by simp
  qed
qed

lemma appendPart_projectToken:
  "appendPart manifestDir command part = command @ [projectToken manifestDir part]"
  by (auto simp: appendPart_def projectToken_def ContainsAny_def quoteWindowsPath_def Let_def)

lemma foldl_appendPart:
  "foldl (appendPart manifestDir) command parts = command @ map (projectToken manifestDir) parts"
  by (induction parts arbitrary: command) (simp_all add: appendPart_projectToken)

lemma ReplaceAll_run_bat:
  "ReplaceAll (''${manifestFolder}'' @ [bs] @ ''tools'' @ [bs] @ ''run.bat'') manifestFolder menu_dir
     = ''C:'' @ [bs] @ ''menu'' @ [bs] @ ''tools'' @ [bs] @ ''run.bat''"
  by (simp add: manifestFolder_def menu_dir_def bs_def)

lemma ReplaceAll_explorer: "ReplaceAll ''explorer.exe'' manifestFolder menu_dir = ''explorer.exe''"
  by (simp add: manifestFolder_def)

lemma CommandString_not_Admin:
  "\<not> Admin c \<Longrightarrow>
     CommandString os c manifestDir var
       = (Inr (joinedBySpace (map (projectToken manifestDir) (Command c))), var)"
  by (simp add: CommandString_def foldl_appendPart Join_joinedBySpace)

lemma CommandString_Admin_found:
  assumes "Admin c" and "findNircmd os var = ((H, None), var')"
  shows "CommandString os c manifestDir var
           = (Inr (joinedBySpace
                (([dq] @ H @ [dq]) # ''elevate'' # map (projectToken manifestDir) (Command c))), var')"
  using assms
  by (simp add: CommandString_def foldl_appendPart Join_joinedBySpace quoteWindowsPath_def)


lemma projectToken_run_bat:
  "map (projectToken menu_dir) (Command run_bat_item)
     = [''explorer.exe'', ''C:'' @ [bs] @ ''menu'' @ [bs] @ ''tools'' @ [bs] @ ''run.bat'']"
  unfolding run_bat_item_def ContextMenu.sel list.map projectToken_def
    ReplaceAll_run_bat ReplaceAll_explorer
  by (simp add: bs_def)

lemma Admin_run_bat_item: "\<not> Admin run_bat_item"
  by (simp add: run_bat_item_def)

lemma findNircmd_os_with_helper:
  "findNircmd os_with_helper [] = ((helper_path, None), helper_path)"
  by (simp add: findNircmd_def probeNircmd_def os_with_helper_def join_backslash_def
      helper_path_def menu_dir_def)


text \<open>
  C1, as the code has it. With \<open>admin = false\<close>, the tokens \<open>explorer.exe\<close> and
  \<open>${manifestFolder}\tools\run.bat\<close> and the base directory \<open>C:\menu\<close>, the command
  projection returns \<open>explorer.exe C:\menu\tools\run.bat\<close>: the second token contains neither
  a space nor a percent sign after the substitution, so it is left bare like the first.
\<close>

theorem C1_command_projection_bare:
  "CommandString os run_bat_item menu_dir var
     = (Inr (''explorer.exe C:'' @ [bs] @ ''menu'' @ [bs] @ ''tools'' @ [bs] @ ''run.bat''), var)"
  unfolding CommandString_not_Admin [OF Admin_run_bat_item] projectToken_run_bat
  by simp

text \<open>
  C1, as the claim states it, is false: the result is not
  \<open>explorer.exe "C:\menu\tools\run.bat"\<close>.
\<close>

theorem C1_command_projection_not_quoted:
  "fst (CommandString os_without_helper run_bat_item menu_dir [])
     \<noteq> Inr (''explorer.exe '' @ [dq] @ ''C:'' @ [bs] @ ''menu'' @ [bs] @ ''tools'' @ [bs]
              @ ''run.bat'' @ [dq])"
  unfolding CommandString_not_Admin [OF Admin_run_bat_item] projectToken_run_bat
  by (simp add: dq_def)

lemma ReplaceAll_skip:
  "\<not> prefix old (c # cs) \<Longrightarrow> old \<noteq> [] \<Longrightarrow> ReplaceAll (c # cs) old new = c # ReplaceAll cs old new"
  by simp

lemma ReplaceAll_free:
  assumes "\<not> sublist p a" and "p \<noteq> []"
  shows "ReplaceAll a p new = a"
  using assms(1)
proof (induction a)
  case Nil
  with assms(2) show ?case by simp
next
  case (Cons c cs)
  from Cons.prems have np: "\<not> prefix p (c # cs)" and ns: "\<not> sublist p cs"
    by (auto simp: sublist_Cons_right)
  with assms(2) Cons.IH show ?case by simp
qed

lemma ReplaceAll_piece:
  assumes x: "x \<notin> set p'" and free: "\<not> sublist (x # p') a"
  shows "ReplaceAll (a @ (x # p') @ rest) (x # p') new = a @ new @ ReplaceAll rest (x # p') new"
  using free
proof (induction a)
  case Nil
  show ?case by simp
next
  case (Cons c cs)
  from Cons.prems have np: "\<not> prefix (x # p') (c # cs)" and ns: "\<not> sublist (x # p') cs"
    by (auto simp: sublist_Cons_right)
  have "\<not> prefix (x # p') ((c # cs) @ (x # p') @ rest)"
  proof
    assume "prefix (x # p') ((c # cs) @ (x # p') @ rest)"
    with np obtain us where us: "x # p' = (c # cs) @ us" "prefix us ((x # p') @ rest)"
      unfolding prefix_append by blast
    show False
    proof (cases us)
      case Nil
      with us(1) np show False by simp
    next
      case (Cons u us')
      with us(2) have "u = x" by simp
      moreover from us(1) Cons have "u \<in> set p'" by auto
      ultimately show False using x by simp
    qed
  qed
  then have "\<not> prefix (x # p') (c # (cs @ (x # p') @ rest))"
    by simp
  from ReplaceAll_skip [OF this] Cons.IH [OF ns] show ?case by simp
qed

lemma ReplaceAll_between:
  assumes "x \<notin> set p'" and "ps \<noteq> []" and "\<forall>a \<in> set ps. \<not> sublist (x # p') a"
  shows "ReplaceAll (between (x # p') ps) (x # p') new = between new ps"
  using assms(2,3)
proof (induction "x # p'" ps rule: between.induct)
  case 1
  then show ?case by simp
next
  case (2 p)
  then show ?case by (simp add: ReplaceAll_free)
next
  case (3 p q ps)
  from 3 have "ReplaceAll (between (x # p') (q # ps)) (x # p') new = between new (q # ps)"
    by simp
  moreover from 3 have "\<not> sublist (x # p') p" by simp
  ultimately show ?case
    using ReplaceAll_piece [OF assms(1), of p "between (x # p') (q # ps)" new] by simp
qed

lemma between_append:
  "us \<noteq> [] \<Longrightarrow> vs \<noteq> [] \<Longrightarrow> between sep (us @ vs) = between sep us @ sep @ between sep vs"
proof (induction sep us rule: between.induct)
  case (2 sep p)
  then show ?case by (cases vs) simp_all
qed simp_all

lemma pieces_exist:
  assumes "p \<noteq> []"
  shows "\<exists>ps. ps \<noteq> [] \<and> (\<forall>a \<in> set ps. \<not> sublist p a) \<and> token = between p ps"
proof (induction token rule: length_induct)
  case (1 token)
  show ?case
  proof (cases "sublist p token")
    case False
    then have "[token] \<noteq> [] \<and> (\<forall>a \<in> set [token]. \<not> sublist p a) \<and> token = between p [token]"
      by simp
    then show ?thesis by blast
  next
    case True
    then obtain a b where t: "token = a @ p @ b" by (auto simp: sublist_def)
    with assms have lt: "length a < length token" "length b < length token" by (cases p; simp)+
    from 1 [rule_format, OF lt(1)] obtain us
      where a: "us \<noteq> []" "\<forall>c \<in> set us. \<not> sublist p c" "a = between p us"
      by (elim exE conjE)
    from 1 [rule_format, OF lt(2)] obtain vs
      where b: "vs \<noteq> []" "\<forall>c \<in> set vs. \<not> sublist p c" "b = between p vs"
      by (elim exE conjE)
    have "us @ vs \<noteq> [] \<and> (\<forall>c \<in> set (us @ vs). \<not> sublist p c) \<and> token = between p (us @ vs)"
      using a b t by (auto simp: between_append)
    then show ?thesis by blast
  qed
qed

lemma projectToken_pieces:
  assumes "pieces_of token ps"
  shows "projectToken baseDir token = quotedIfNeeded (between baseDir ps)"
proof -
  have "ReplaceAll token manifestFolder baseDir = between baseDir ps"
    using assms ReplaceAll_between [of "CHR ''$''" "''{manifestFolder}''" ps baseDir]
    by (simp add: pieces_of_def manifestFolder_def)
  then show ?thesis
    by (simp add: projectToken_def quotedIfNeeded_def Let_def)
qed

lemma projectToken_pieces_map:
  "list_all2 pieces_of tokens pss
     \<Longrightarrow> map (projectToken baseDir) tokens = map (\<lambda>ps. quotedIfNeeded (between baseDir ps)) pss"
  by (induction rule: list_all2_induct) (simp_all add: projectToken_pieces)

text \<open>
  C3. For every token list and base directory, the command projection of a node with
  \<open>admin = false\<close> replaces the placeholder in each token by the base directory, puts the
  resulting token between double quotes exactly when it contains a space or a percent sign,
  and returns the tokens joined by a single space. The helper is not looked up:
  \<^verbatim>\<open>_nircmdPath\<close> keeps its value.

  The substitution is stated on the pieces of a token. Every token can be cut into pieces
  free of the placeholder with the placeholder between them; and however the tokens are cut,
  the projection is made of the same pieces with the base directory between them.
\<close>

theorem C3_command_projection_tokens:
  "(\<forall>token. \<exists>ps. pieces_of token ps)
   \<and> (list_all2 pieces_of tokens pss \<longrightarrow>
        CommandString os (ContextMenu ty title iconPath iconIndex extended False tokens items)
            baseDir var
          = (Inr (joinedBySpace (map (\<lambda>ps. quotedIfNeeded (between baseDir ps)) pss)), var))"
proof (intro conjI allI impI)
  fix token
  from pieces_exist [of "''${manifestFolder}''" token]
  show "\<exists>ps. pieces_of token ps" by (simp add: pieces_of_def)
next
  assume "list_all2 pieces_of tokens pss"
  from projectToken_pieces_map [OF this, of baseDir]
  show "CommandString os (ContextMenu ty title iconPath iconIndex extended False tokens items)
            baseDir var
          = (Inr (joinedBySpace (map (\<lambda>ps. quotedIfNeeded (between baseDir ps)) pss)), var)"
    by (simp add: CommandString_not_Admin)
qed

text \<open>
  The tokens \<open>explorer.exe\<close>, \<open>${manifestFolder}\my tools\run.bat\<close> and \<open>%1\<close> with the base
  directory \<open>C:\menu\<close>: the first is left bare, the second has the base directory in the
  place of the placeholder and is quoted for its space, the third is quoted for its percent
  sign.
\<close>

theorem C3_command_projection_tokens_witness:
  "list_all2 pieces_of
     [''explorer.exe'', ''${manifestFolder}'' @ [bs] @ ''my tools'' @ [bs] @ ''run.bat'', ''%1'']
     [[''explorer.exe''], [[], [bs] @ ''my tools'' @ [bs] @ ''run.bat''], [''%1'']]
   \<and> CommandString os_without_helper
         (ContextMenu ''item'' ''Run'' [] None False False
            [''explorer.exe'', ''${manifestFolder}'' @ [bs] @ ''my tools'' @ [bs] @ ''run.bat'', ''%1'']
            [])
         menu_dir []
       = (Inr (''explorer.exe '' @ [dq] @ ''C:'' @ [bs] @ ''menu'' @ [bs] @ ''my tools'' @ [bs]
               @ ''run.bat'' @ [dq] @ '' '' @ [dq] @ ''%1'' @ [dq]), [])"
proof -
  have p: "list_all2 pieces_of
     [''explorer.exe'', ''${manifestFolder}'' @ [bs] @ ''my tools'' @ [bs] @ ''run.bat'', ''%1'']
     [[''explorer.exe''], [[], [bs] @ ''my tools'' @ [bs] @ ''run.bat''], [''%1'']]"
    by (simp add: pieces_of_def sublist_Cons_right bs_def)
  from C3_command_projection_tokens [of
      "[''explorer.exe'', ''${manifestFolder}'' @ [bs] @ ''my tools'' @ [bs] @ ''run.bat'', ''%1'']"
      "[[''explorer.exe''], [[], [bs] @ ''my tools'' @ [bs] @ ''run.bat''], [''%1'']]"
      os_without_helper "''item''" "''Run''" "[]" None False "[]" menu_dir "[]"] p
  show ?thesis
    by (simp add: quotedIfNeeded_def menu_dir_def bs_def dq_def)
qed


text \<open>
  C5. For every node with \<open>admin = true\<close> whose elevation helper is found at the path
  \<open>H\<close>, the projected command string is \<open>H\<close> between double quotes, a space and the token
  \<open>elevate\<close>, and then the node's own tokens, each after a space. (A node with no token
  gives exactly \<open>"H" elevate\<close>, with no space after it.)
\<close>

theorem C5_admin_projection:
  assumes "Admin c" and "findNircmd os var = ((H, None), var')"
  shows "fst (CommandString os c baseDir var)
           = Inr ([dq] @ H @ [dq] @ '' elevate''
                  @ concat (map (\<lambda>t. CHR '' '' # projectToken baseDir t) (Command c)))"
  using assms by (simp add: CommandString_Admin_found comp_def)

theorem C5_admin_projection_witness:
  "Admin admin_item \<and> findNircmd os_with_helper [] = ((helper_path, None), helper_path)
   \<and> fst (CommandString os_with_helper admin_item menu_dir [])
       = Inr ([dq] @ ''C:'' @ [bs] @ ''menu'' @ [bs] @ ''bin'' @ [bs] @ ''nircmd.exe'' @ [dq]
              @ '' elevate cmd.exe'')"
proof -
  have a: "Admin admin_item"
    by (simp add: admin_item_def)
  have t: "projectToken menu_dir ''cmd.exe'' = ''cmd.exe''"
    by (simp add: projectToken_def manifestFolder_def)
  have c: "Command admin_item = [''cmd.exe'']"
    by (simp add: admin_item_def)
  have "fst (CommandString os_with_helper admin_item menu_dir [])
          = Inr ([dq] @ helper_path @ [dq] @ '' elevate''
                 @ concat (map (\<lambda>t. CHR '' '' # projectToken menu_dir t) (Command admin_item)))"
    using C5_admin_projection [OF a findNircmd_os_with_helper] .
  then have "fst (CommandString os_with_helper admin_item menu_dir [])
          = Inr ([dq] @ helper_path @ [dq] @ '' elevate cmd.exe'')"
    by (simp add: c t)
  with a findNircmd_os_with_helper show ?thesis
    by (simp add: helper_path_def menu_dir_def)
qed

section \<open>Properties of the registry model\<close>

subsection \<open>The view of an update\<close>

lemma view_Nil: "view k [] = Some (map_of (key_values k))" by (simp add: view_def)

lemma view_Cons: "view k (n # ns) = (case map_of (key_subkeys k) n of None \<Rightarrow> None | Some c \<Rightarrow> view c ns)"
  by (simp add: view_def split: option.split)

lemma view_empty_key: "view (RegKey [] []) q = (if q = [] then Some Map.empty else None)"
  by (cases q) (simp_all add: view_Nil view_Cons)

lemma view_ensure:
  "view (ensure p k) q = (case view k q of Some m \<Rightarrow> Some m | None \<Rightarrow> if prefix q p then Some Map.empty else None)"
proof (induction p arbitrary: k q)
  case Nil
  show ?case by (cases q) (auto simp: view_Nil view_Cons split: option.split)
next
  case (Cons n ns)
  show ?case
  proof (cases q)
    case Nil
    then show ?thesis by (simp add: view_Nil)
  next
    case (Cons m ms)
    then show ?thesis
      using Cons.IH by (auto simp: view_Cons update_conv' view_Nil view_empty_key split: option.split)
  qed
qed

lemma view_remove:
  "p \<noteq> [] \<Longrightarrow> view (remove p k) q = (if prefix p q then None else view k q)"
proof (induction p k arbitrary: q rule: remove.induct)
  case (1 k)
  then show ?case by simp
next
  case (2 n k)
  show ?case by (cases q) (auto simp: view_Nil view_Cons delete_conv' split: option.split)
next
  case (3 n m ns k)
  show ?case
  proof (cases q)
    case Nil
    then show ?thesis by (simp add: view_Nil split: option.split)
  next
    case (Cons a as)
    then show ?thesis
      using 3 by (auto simp: view_Cons update_conv' split: option.split)
  qed
qed

lemma view_set_val:
  "view (set_val p name v k) q = (if q = p then map_option (put_val name v) (view k q) else view k q)"
proof (induction p arbitrary: k q)
  case Nil
  show ?case by (cases q) (auto simp: view_Nil view_Cons update_conv' put_val_def split: option.split)
next
  case (Cons n ns)
  show ?case
  proof (cases q)
    case Nil
    then show ?thesis by (simp add: view_Nil split: option.split)
  next
    case (Cons m ms)
    then show ?thesis
      using Cons.IH by (auto simp: view_Cons update_conv' split: option.split)
  qed
qed

subsection \<open>Paths\<close>

lemma segments_append:
  "segments cur (a @ bs # b) = segments cur a @ segments [] b"
  by (induction a arbitrary: cur) auto

lemma splitPath_append: "splitPath (a @ bs # b) = splitPath a @ splitPath b"
  by (simp add: splitPath_def segments_append)

lemma segments_valid:
  "bs \<notin> set cur \<Longrightarrow> list_all valid_name (segments cur s)"
  by (induction s arbitrary: cur) (simp_all add: valid_name_def)

lemma splitPath_valid: "list_all valid_name (splitPath s)"
  by (simp add: splitPath_def segments_valid)

lemma segments_no_bs: "bs \<notin> set s \<Longrightarrow> segments cur s = (if cur @ s = [] then [] else [cur @ s])"
  by (induction s arbitrary: cur) auto

lemma splitPath_valid_name: "valid_name n \<Longrightarrow> splitPath n = [n]"
  by (simp add: splitPath_def segments_no_bs valid_name_def)

lemma lookup_append:
  "lookup k (p @ q) = (case lookup k p of None \<Rightarrow> None | Some c \<Rightarrow> lookup c q)"
  by (induction p arbitrary: k) (auto split: option.split)

lemma view_None_iff: "view k p = None \<longleftrightarrow> lookup k p = None"
  by (simp add: view_def)

lemma view_append_None: "view k p = None \<Longrightarrow> view k (p @ q) = None"
  by (simp add: view_None_iff lookup_append)

lemma view_prefix_None: "view k p = None \<Longrightarrow> prefix p q \<Longrightarrow> view k q = None"
  by (auto simp: prefix_def view_append_None)

lemma lookup_child:
  "lookup k p = Some c \<Longrightarrow> lookup k (p @ [n]) = map_of (key_subkeys c) n"
  by (simp add: lookup_append split: option.split)

lemma subkeys_empty_iff:
  assumes "lookup k p = Some c"
  shows "key_subkeys c = [] \<longleftrightarrow> (\<forall>n. view k (p @ [n]) = None)"
proof
  assume "key_subkeys c = []"
  then show "\<forall>n. view k (p @ [n]) = None"
    using assms by (simp add: view_None_iff lookup_child)
next
  assume a: "\<forall>n. view k (p @ [n]) = None"
  show "key_subkeys c = []"
  proof (cases "key_subkeys c")
    case Nil
    then show ?thesis .
  next
    case (Cons x xs)
    then have "map_of (key_subkeys c) (fst x) \<noteq> None"
      by (cases x) simp
    with a assms show ?thesis
      by (simp add: view_None_iff lookup_child)
  qed
qed

lemma name_in_subkeys:
  assumes "lookup k p = Some c"
  shows "n \<in> fst ` set (key_subkeys c) \<longleftrightarrow> view k (p @ [n]) \<noteq> None"
  using assms by (simp add: view_None_iff lookup_child map_of_eq_None_iff)

lemma set_update_cases: "x \<in> set (AList.update n c al) \<Longrightarrow> x = (n, c) \<or> x \<in> set al"
  by (induction al) (auto split: if_splits)

lemma set_delete_subset: "x \<in> set (AList.delete n al) \<Longrightarrow> x \<in> set al"
  by (induction al) (auto split: if_splits)

subsection \<open>Well-formed registries\<close>

lemma wf_child: "wf_reg k \<Longrightarrow> map_of (key_subkeys k) n = Some c \<Longrightarrow> valid_name n \<and> wf_reg c"
  by (cases k) (auto dest: map_of_SomeD)

lemma wf_lookup: "wf_reg k \<Longrightarrow> lookup k p = Some c \<Longrightarrow> wf_reg c"
  by (induction p arbitrary: k) (auto split: option.splits dest: wf_child)

lemma wf_update:
  assumes "wf_reg k" and "valid_name n" and "wf_reg c"
  shows "wf_reg (RegKey vs (AList.update n c (key_subkeys k)))"
proof (cases k)
  case (RegKey ws ks)
  with assms(1) have d: "distinct (map fst ks)"
    and e: "\<forall>x \<in> set ks. valid_name (fst x) \<and> wf_reg (snd x)"
    by simp_all
  have "valid_name (fst x) \<and> wf_reg (snd x)" if "x \<in> set (AList.update n c ks)" for x
    using set_update_cases [OF that] e assms(2,3) by (elim disjE) simp_all
  with d RegKey show ?thesis
    by (simp add: distinct_update)
qed

lemma wf_empty_key: "wf_reg (RegKey [] [])"
  by simp

lemma wf_ensure: "wf_reg k \<Longrightarrow> list_all valid_name p \<Longrightarrow> wf_reg (ensure p k)"
proof (induction p arbitrary: k)
  case Nil
  then show ?case by simp
next
  case (Cons n ns)
  have "wf_reg (case map_of (key_subkeys k) n of None \<Rightarrow> RegKey [] [] | Some c \<Rightarrow> c)"
    using Cons.prems(1) by (auto split: option.split dest: wf_child)
  then have "wf_reg (ensure ns (case map_of (key_subkeys k) n of None \<Rightarrow> RegKey [] [] | Some c \<Rightarrow> c))"
    using Cons by simp
  then show ?case
    using Cons.prems wf_update [of k n] by simp
qed

lemma wf_delete:
  assumes "wf_reg k"
  shows "wf_reg (RegKey vs (AList.delete n (key_subkeys k)))"
proof (cases k)
  case (RegKey ws ks)
  with assms have d: "distinct (map fst ks)"
    and e: "\<forall>x \<in> set ks. valid_name (fst x) \<and> wf_reg (snd x)"
    by simp_all
  have "valid_name (fst x) \<and> wf_reg (snd x)" if "x \<in> set (AList.delete n ks)" for x
    using set_delete_subset [OF that] e by simp
  with d RegKey show ?thesis
    by (simp add: distinct_delete)
qed

lemma wf_remove: "wf_reg k \<Longrightarrow> wf_reg (remove p k)"
proof (induction p k rule: remove.induct)
  case (1 k)
  then show ?case by simp
next
  case (2 n k)
  then show ?case by (simp del: wf_reg.simps add: wf_delete)
next
  case (3 n m ns k)
  show ?case
  proof (cases "map_of (key_subkeys k) n")
    case None
    with 3 show ?thesis by simp
  next
    case (Some c)
    with 3 wf_child [of k n c] have "valid_name n" "wf_reg (remove (m # ns) c)"
      by simp_all
    with Some "3.prems" wf_update [of k n] show ?thesis by simp
  qed
qed

lemma wf_values:
  assumes "wf_reg k"
  shows "wf_reg (RegKey vs (key_subkeys k))"
proof (cases k)
  case (RegKey ws ks)
  with assms show ?thesis by simp
qed

lemma wf_set_val: "wf_reg k \<Longrightarrow> wf_reg (set_val p name v k)"
proof (induction p arbitrary: k)
  case Nil
  then show ?case by (simp del: wf_reg.simps add: wf_values)
next
  case (Cons n ns)
  show ?case
  proof (cases "map_of (key_subkeys k) n")
    case None
    with Cons show ?thesis by simp
  next
    case (Some c)
    with Cons wf_child [of k n c] have "valid_name n" "wf_reg (set_val ns name v c)"
      by simp_all
    with Some Cons.prems wf_update [of k n] show ?thesis by simp
  qed
qed

declare wf_reg.simps [simp del]

subsection \<open>The effect of erasing a key\<close>

lemma adapter_call_result:
  assumes "adapter_call fault op f st = (x, st')"
  shows "nircmdPath_var st' = nircmdPath_var st"
    and "oplog st' = oplog st @ [(op, case x of Inl e \<Rightarrow> Some e | Inr y \<Rightarrow> None)]"
    and "(\<exists>e. x = Inl e \<and> reg st' = reg st \<and> (fault op = Some e \<or> fault op = None \<and> f (reg st) = Inl e))
         \<or> (\<exists>y. x = Inr y \<and> fault op = None \<and> f (reg st) = Inr (y, reg st'))"
  using assms by (auto simp: adapter_call_def split: option.splits sum.splits)

lemma run_ok_append:
  "list_all tolerated es1 \<Longrightarrow> run_ok r es2 \<Longrightarrow> run_ok r (es1 @ es2)"
  by (auto simp: run_ok_def butlast_append split: option.splits)

lemma run_ok_wrap: "run_ok (Some e) es \<Longrightarrow> run_ok (Some (Wrap w e)) es"
  by (simp add: run_ok_def)

lemma run_ok_None: "run_ok None es = list_all tolerated es"
  by (simp add: run_ok_def)

lemma run_ok_single:
  "run_ok r [(op, c)] =
     (case r of None \<Rightarrow> tolerated (op, c)
      | Some e \<Rightarrow> \<not> tolerated (op, c) \<and> (\<exists>code. c = Some code \<and> root_cause e = Errno code))"
  by (simp add: run_ok_def split: option.split)

lemma shrinks_under_refl: "shrinks_under P r r"
  by (simp add: shrinks_under_def)

lemma shrinks_under_trans:
  "shrinks_under P r r1 \<Longrightarrow> shrinks_under P r1 r2 \<Longrightarrow> shrinks_under P r r2"
  unfolding shrinks_under_def by metis

lemma shrinks_under_mono: "prefix P P' \<Longrightarrow> shrinks_under P' r r' \<Longrightarrow> shrinks_under P r r'"
  unfolding shrinks_under_def by (meson prefix_order.trans)

lemma under_mono: "prefix P P' \<Longrightarrow> under P' es \<Longrightarrow> under P es"
  unfolding under_def list_all_iff by (meson prefix_order.trans)

lemma erase_effect_refl: "erase_effect P st (None, st)"
  by (simp add: erase_effect_def shrinks_under_refl run_ok_None under_def)

lemma erase_effect_trans:
  assumes "erase_effect P st (None, st1)" and "erase_effect P st1 res"
  shows "erase_effect P st res"
proof -
  from assms(1) obtain es1 where e1: "oplog st1 = oplog st @ es1" "list_all tolerated es1" "under P es1"
    by (auto simp: erase_effect_def run_ok_None)
  from assms(2) obtain es2 where e2: "oplog (snd res) = oplog st1 @ es2" "run_ok (fst res) es2" "under P es2"
    by (auto simp: erase_effect_def)
  have "oplog (snd res) = oplog st @ (es1 @ es2)" "run_ok (fst res) (es1 @ es2)" "under P (es1 @ es2)"
    using e1 e2 by (simp_all add: run_ok_append under_def)
  then have "\<exists>es. oplog (snd res) = oplog st @ es \<and> run_ok (fst res) es \<and> under P es"
    by blast
  moreover have "shrinks_under P (reg st) (reg (snd res))"
  proof (rule shrinks_under_trans)
    show "shrinks_under P (reg st) (reg st1)"
      using assms(1) by (simp add: erase_effect_def)
    show "shrinks_under P (reg st1) (reg (snd res))"
      using assms(2) by (simp add: erase_effect_def)
  qed
  ultimately show ?thesis
    using assms by (simp add: erase_effect_def)
qed

lemma erase_effect_wrap:
  "erase_effect P st (Some e, st') \<Longrightarrow> erase_effect P st (Some (Wrap w e), st')"
  by (auto simp: erase_effect_def run_ok_wrap)

lemma erase_effect_mono:
  "prefix P P' \<Longrightarrow> erase_effect P' st res \<Longrightarrow> erase_effect P st res"
  by (auto simp: erase_effect_def intro: shrinks_under_mono under_mono)

lemma OpenKey_handle: "OpenKey fault st k path = (Inr key, st1) \<Longrightarrow> key = k @ splitPath path"
  by (auto simp: OpenKey_def adapter_call_def split: option.splits sum.splits)

lemma OpenKey_effect:
  assumes "OpenKey fault st k path = (x, st1)"
  shows "erase_effect (k @ splitPath path) st
           (case x of Inl e \<Rightarrow> if e = ENOENT then None else Some (Wrap w (Errno e)) | Inr key \<Rightarrow> None, st1)"
proof -
  note r = adapter_call_result [OF assms [unfolded OpenKey_def]]
  from r(3) have "reg st1 = reg st"
    by (auto split: option.splits)
  with r(1,2) show ?thesis
    by (auto simp: erase_effect_def shrinks_under_refl run_ok_single under_def split: sum.splits)
qed

lemma ReadSubKeyNames_effect:
  assumes "ReadSubKeyNames fault st key = (x, st1)"
  shows "erase_effect key st
           (case x of Inl e \<Rightarrow> Some (Wrap w (Errno e)) | Inr names \<Rightarrow> None, st1)"
proof -
  note r = adapter_call_result [OF assms [unfolded ReadSubKeyNames_def]]
  from r(3) have "reg st1 = reg st"
    by (auto split: option.splits)
  with r(1,2) show ?thesis
    by (auto simp: erase_effect_def shrinks_under_refl run_ok_single under_def split: sum.splits)
qed

lemma shrinks_under_remove: "P \<noteq> [] \<Longrightarrow> shrinks_under P r (remove P r)"
  by (simp add: shrinks_under_def view_remove)

lemma DeleteKey_effect:
  assumes "DeleteKey fault st k path = (x, st1)"
  shows "erase_effect (k @ splitPath path) st
           (case x of Inl e \<Rightarrow> if e = ENOENT then None else Some (Wrap w (Errno e)) | Inr u \<Rightarrow> None, st1)"
proof -
  note r = adapter_call_result [OF assms [unfolded DeleteKey_def]]
  from r(3) have "reg st1 = reg st \<or> (k @ splitPath path \<noteq> [] \<and> reg st1 = remove (k @ splitPath path) (reg st))"
    by (auto split: option.splits if_splits)
  then have "shrinks_under (k @ splitPath path) (reg st) (reg st1)" "wf_reg (reg st) \<longrightarrow> wf_reg (reg st1)"
    by (auto simp: shrinks_under_refl shrinks_under_remove wf_remove)
  with r(1,2) show ?thesis
    by (auto simp: erase_effect_def run_ok_single under_def split: sum.splits)
qed

lemma deleteSubKeys_effect:
  assumes "\<And>name st res. name \<in> set names \<Longrightarrow> rec name st = Some res
             \<Longrightarrow> erase_effect (P @ splitPath name) st res"
    and "deleteSubKeys rec path names st = Some res"
  shows "erase_effect P st res"
  using assms
proof (induction names arbitrary: st)
  case Nil
  then show ?case by (auto simp: erase_effect_refl)
next
  case (Cons name rest)
  from Cons.prems(2) obtain r1 st1 where c: "rec name st = Some (r1, st1)"
    by (auto split: option.splits)
  have e1: "erase_effect P st (r1, st1)"
    using Cons.prems(1) [of name st "(r1, st1)"] c erase_effect_mono [of P "P @ splitPath name"]
    by simp
  show ?case
  proof (cases r1)
    case None
    with c Cons.prems(2) have "deleteSubKeys rec path rest st1 = Some res"
      by simp
    then have "erase_effect P st1 res"
      using Cons.IH Cons.prems(1) by simp
    with e1 None show ?thesis
      using erase_effect_trans by blast
  next
    case (Some err)
    with c Cons.prems(2) have "res = (Some (Wrap (FailedToDeleteSubkeyOfPath name path) err), st1)"
      by simp
    with e1 Some show ?thesis
      by (simp add: erase_effect_wrap)
  qed
qed

text \<open>
  Whatever the calls do, and with any number of allowed nested calls: erasing the key \<open>P\<close>
  leaves \<^verbatim>\<open>_nircmdPath\<close> alone, removes keys at \<open>P\<close> and below it and changes nothing else,
  keeps the registry well-formed, and makes only calls on \<open>P\<close> and below it, which explain
  the error it returns.
\<close>

lemma deleteRegKeyRecursive_fuel_effect:
  "deleteRegKeyRecursive_fuel n fault k path st = Some res
     \<Longrightarrow> erase_effect (k @ splitPath path) st res"
proof (induction n arbitrary: k path st res)
  case 0
  then show ?case by simp
next
  case (Suc n)
  let ?P = "k @ splitPath path"
  obtain x st1 where o: "OpenKey fault st k path = (x, st1)"
    by (cases "OpenKey fault st k path")
  note eo = OpenKey_effect [OF o]
  show ?case
  proof (cases x)
    case (Inl e)
    with o Suc.prems eo [of "FailedToOpenKeyPath path"] show ?thesis
      by (auto split: if_splits)
  next
    case (Inr key)
    with o have key: "key = ?P"
      by (simp add: OpenKey_handle)
    from Inr eo have e1: "erase_effect ?P st (None, st1)"
      by simp
    obtain y st2 where l: "ReadSubKeyNames fault st1 key = (y, st2)"
      by (cases "ReadSubKeyNames fault st1 key")
    note el = ReadSubKeyNames_effect [OF l, unfolded key]
    show ?thesis
    proof (cases y)
      case (Inl e)
      with o l \<open>x = Inr key\<close> Suc.prems have "res = (Some (Wrap (FailedToGetSubkeysOfPath path) (Errno e)), st2)"
        by simp
      with Inl el [of "FailedToGetSubkeysOfPath path"] e1 show ?thesis
        using erase_effect_trans by fastforce
    next
      case (Inr names)
      with el have e2: "erase_effect ?P st1 (None, st2)"
        by simp
      from o l \<open>x = Inr key\<close> Inr Suc.prems obtain r3 st3
        where d: "deleteSubKeys (deleteRegKeyRecursive_fuel n fault key) path names st2 = Some (r3, st3)"
        by (auto split: option.splits)
      have e3: "erase_effect ?P st2 (r3, st3)"
      proof (rule deleteSubKeys_effect [OF _ d])
        fix name st' res'
        assume "deleteRegKeyRecursive_fuel n fault key name st' = Some res'"
        then show "erase_effect (?P @ splitPath name) st' res'"
          using Suc.IH [of key name st' res'] key by simp
      qed
      have e123: "erase_effect ?P st (r3, st3)"
        using e1 e2 e3 erase_effect_trans by blast
      show ?thesis
      proof (cases r3)
        case (Some err)
        with o l d \<open>x = Inr key\<close> Inr Suc.prems have "res = (Some err, st3)"
          by simp
        with e123 Some show ?thesis by simp
      next
        case None
        obtain z st4 where dk: "DeleteKey fault st3 k path = (z, st4)"
          by (cases "DeleteKey fault st3 k path")
        from o l d dk \<open>x = Inr key\<close> Inr None Suc.prems
        have "res = (case z of Inl e \<Rightarrow> if e = ENOENT then None else Some (Wrap (FailedToDeleteKeyPath path) (Errno e)) | Inr u \<Rightarrow> None, st4)"
          by (auto split: sum.splits)
        with DeleteKey_effect [OF dk, of "FailedToDeleteKeyPath path"] e123 None show ?thesis
          using erase_effect_trans by fastforce
      qed
    qed
  qed
qed

subsection \<open>Erasing a key returns\<close>

lemma fold_max_ge: "(a::nat) \<le> fold max xs a"
proof (induction xs arbitrary: a)
  case Nil
  show ?case by simp
next
  case (Cons y ys)
  have "a \<le> max y a" by simp
  also have "max y a \<le> fold max ys (max y a)" by (rule Cons.IH)
  finally show ?case by simp
qed

lemma fold_max_mem: "(x::nat) \<in> set xs \<Longrightarrow> x \<le> fold max xs a"
proof (induction xs arbitrary: a)
  case Nil
  then show ?case by simp
next
  case (Cons y ys)
  show ?case
  proof (cases "x = y")
    case True
    have "max y a \<le> fold max ys (max y a)" by (rule fold_max_ge)
    with True show ?thesis by simp
  next
    case False
    with Cons show ?thesis by simp
  qed
qed

lemma height_child: "map_of (key_subkeys k) n = Some c \<Longrightarrow> height c < height k"
proof (cases k)
  case (RegKey vs ks)
  assume "map_of (key_subkeys k) n = Some c"
  with RegKey have "(n, c) \<in> set ks"
    by (auto dest: map_of_SomeD)
  then have "height c \<in> set (map (\<lambda>x. height (snd x)) ks)"
    by force
  then have "height c \<le> fold max (map (\<lambda>x. height (snd x)) ks) 0"
    by (rule fold_max_mem)
  with RegKey show ?thesis by simp
qed

lemma height_lookup: "lookup k q = Some c \<Longrightarrow> length q + height c \<le> height k"
proof (induction q arbitrary: k)
  case Nil
  then show ?case by simp
next
  case (Cons n ns)
  then obtain d where d: "map_of (key_subkeys k) n = Some d" "lookup d ns = Some c"
    by (auto split: option.splits)
  with Cons.IH [of d] height_child [of k n d] show ?case by simp
qed

lemma height_pos: "0 < height k"
  by (cases k) simp

lemma view_depth: "view k q \<noteq> None \<Longrightarrow> length q < height k"
proof -
  assume "view k q \<noteq> None"
  then obtain c where "lookup k q = Some c"
    by (auto simp: view_None_iff)
  with height_lookup [of k q c] height_pos [of c] show ?thesis by simp
qed

lemma OpenKey_Inr:
  assumes "OpenKey fault st k path = (Inr key, st1)"
  shows "key = k @ splitPath path" and "reg st1 = reg st" and "lookup (reg st) key \<noteq> None"
  using assms by (auto simp: OpenKey_def adapter_call_def split: option.splits sum.splits)

lemma ReadSubKeyNames_Inr:
  assumes "ReadSubKeyNames fault st key = (Inr names, st1)"
  shows "reg st1 = reg st" and "\<exists>c. lookup (reg st) key = Some c \<and> names = map fst (key_subkeys c)"
  using assms by (auto simp: ReadSubKeyNames_def adapter_call_def split: option.splits sum.splits)

lemma names_valid:
  assumes "wf_reg r" and "lookup r p = Some c" and "n \<in> set (map fst (key_subkeys c))"
  shows "valid_name n"
proof -
  from assms(1,2) have w: "wf_reg c" by (rule wf_lookup)
  from assms(3) obtain d where "(n, d) \<in> set (key_subkeys c)" by auto
  with w show ?thesis
    by (cases c) (auto simp: wf_reg.simps)
qed

lemma shrinks_under_keeps:
  assumes "shrinks_under P r r'" and "view r' q \<noteq> None"
  shows "view r q = view r' q"
  using assms unfolding shrinks_under_def by (elim allE [of _ q]) auto

lemma deleteSubKeys_total:
  assumes "\<And>name st. name \<in> set names \<Longrightarrow> Q st \<Longrightarrow> \<exists>res. rec name st = Some res \<and> Q (snd res)"
    and "Q st"
  shows "\<exists>res. deleteSubKeys rec path names st = Some res"
  using assms
proof (induction names arbitrary: st)
  case Nil
  then show ?case by simp
next
  case (Cons name rest)
  from Cons.prems(1) [of name st] Cons.prems(2) obtain res
    where res: "rec name st = Some res" "Q (snd res)"
    by auto
  obtain r1 st1 where "res = (r1, st1)"
    by (cases res)
  with res have c: "rec name st = Some (r1, st1)" "Q st1"
    by simp_all
  show ?case
  proof (cases r1)
    case None
    have "\<exists>res. deleteSubKeys rec path rest st1 = Some res"
      using Cons.IH [of st1] Cons.prems(1) c(2) by simp
    with c None show ?thesis by simp
  next
    case (Some err)
    with c show ?thesis by simp
  qed
qed

text \<open>
  On a well-formed registry, whatever the calls do, a number of allowed nested calls that is
  larger than the length of every branch below the key is never used up.
\<close>

lemma deleteRegKeyRecursive_fuel_total:
  assumes "wf_reg (reg st)" and "0 < n"
    and "\<forall>q. view (reg st) (k @ splitPath path @ q) \<noteq> None \<longrightarrow> length q < n"
  shows "\<exists>res. deleteRegKeyRecursive_fuel n fault k path st = Some res"
  using assms
proof (induction n arbitrary: k path st)
  case 0
  then show ?case by simp
next
  case (Suc n)
  let ?P = "k @ splitPath path"
  obtain x st1 where o: "OpenKey fault st k path = (x, st1)"
    by (cases "OpenKey fault st k path")
  show ?case
  proof (cases x)
    case (Inl e)
    with o show ?thesis by simp
  next
    case (Inr key)
    note ok = OpenKey_Inr [OF o [unfolded Inr]]
    obtain y st2 where l: "ReadSubKeyNames fault st1 key = (y, st2)"
      by (cases "ReadSubKeyNames fault st1 key")
    show ?thesis
    proof (cases y)
      case (Inl e)
      with o l \<open>x = Inr key\<close> show ?thesis by simp
    next
      case (Inr names)
      note rk = ReadSubKeyNames_Inr [OF l [unfolded Inr]]
      from rk ok obtain c where c: "lookup (reg st) ?P = Some c" "names = map fst (key_subkeys c)"
        by auto
      define Q where "Q = (\<lambda>s::state. wf_reg (reg s) \<and> shrinks_under ?P (reg st) (reg s))"
      have q2: "Q st2"
        using Suc.prems(1) rk(1) ok(2) by (simp add: Q_def shrinks_under_refl)
      have step: "\<exists>res. deleteRegKeyRecursive_fuel n fault key name s = Some res \<and> Q (snd res)"
        if "name \<in> set names" and "Q s" for name s
      proof -
        have v: "valid_name name"
          using names_valid [OF Suc.prems(1) c(1)] that(1) c(2) by simp
        then have sp: "splitPath name = [name]"
          by (rule splitPath_valid_name)
        from that(1) c have "view (reg st) (?P @ [name]) \<noteq> None"
          using name_in_subkeys [OF c(1), of name] by simp
        with Suc.prems(3) [rule_format, of "[name]"] have n: "0 < n"
          by simp
        have b: "\<forall>q. view (reg s) (key @ splitPath name @ q) \<noteq> None \<longrightarrow> length q < n"
        proof (intro allI impI)
          fix q assume "view (reg s) (key @ splitPath name @ q) \<noteq> None"
          then have a: "view (reg s) (?P @ name # q) \<noteq> None"
            by (simp add: sp ok(1))
          from that(2) have "shrinks_under ?P (reg st) (reg s)"
            by (simp add: Q_def)
          from shrinks_under_keeps [OF this a] a have "view (reg st) (?P @ name # q) \<noteq> None"
            by simp
          with Suc.prems(3) [rule_format, of "name # q"] show "length q < n"
            by simp
        qed
        from that(2) have "wf_reg (reg s)" by (simp add: Q_def)
        from Suc.IH [OF this n b] obtain res
          where res: "deleteRegKeyRecursive_fuel n fault key name s = Some res"
          by blast
        from deleteRegKeyRecursive_fuel_effect [OF res]
        have "erase_effect ?P s res"
          using erase_effect_mono [of ?P "key @ splitPath name"] ok(1) by simp
        with that(2) have "Q (snd res)"
          unfolding Q_def erase_effect_def using shrinks_under_trans by blast
        with res show ?thesis by blast
      qed
      from deleteSubKeys_total [of names Q "deleteRegKeyRecursive_fuel n fault key", OF step q2]
      obtain res3
        where "deleteSubKeys (deleteRegKeyRecursive_fuel n fault key) path names st2 = Some res3"
        by blast
      then obtain r3 st3
        where d: "deleteSubKeys (deleteRegKeyRecursive_fuel n fault key) path names st2 = Some (r3, st3)"
        by (cases res3) simp
      obtain z st4 where dk: "DeleteKey fault st3 k path = (z, st4)"
        by (cases "DeleteKey fault st3 k path")
      from o l d dk \<open>x = Inr key\<close> Inr show ?thesis
        by (cases r3; cases z) simp_all
    qed
  qed
qed

lemma deleteRegKeyRecursive_total:
  assumes "wf_reg (reg st)"
  shows "\<exists>res. deleteRegKeyRecursive fault k path st = Some res"
  unfolding deleteRegKeyRecursive_def
proof (rule deleteRegKeyRecursive_fuel_total [OF assms height_pos], intro allI impI)
  fix q assume "view (reg st) (k @ splitPath path @ q) \<noteq> None"
  from view_depth [OF this] show "length q < height (reg st)" by simp
qed

subsection \<open>More allowed calls change nothing\<close>

lemma deleteSubKeys_mono:
  assumes "\<And>name st res. rec name st = Some res \<Longrightarrow> rec' name st = Some res"
    and "deleteSubKeys rec path names st = Some res"
  shows "deleteSubKeys rec' path names st = Some res"
  using assms(2)
proof (induction names arbitrary: st)
  case Nil
  then show ?case by simp
next
  case (Cons name rest)
  then obtain r1 st1 where c: "rec name st = Some (r1, st1)"
    by (auto split: option.splits)
  from assms(1) [OF c] have c': "rec' name st = Some (r1, st1)" .
  from Cons c c' show ?case
    by (cases r1) simp_all
qed

lemma deleteRegKeyRecursive_fuel_Suc:
  "deleteRegKeyRecursive_fuel n fault k path st = Some res
     \<Longrightarrow> deleteRegKeyRecursive_fuel (Suc n) fault k path st = Some res"
proof (induction n arbitrary: k path st res)
  case 0
  then show ?case by simp
next
  case (Suc n)
  obtain x st1 where o: "OpenKey fault st k path = (x, st1)"
    by (cases "OpenKey fault st k path")
  show ?case
  proof (cases x)
    case (Inl e)
    with o Suc.prems show ?thesis by simp
  next
    case (Inr key)
    obtain y st2 where l: "ReadSubKeyNames fault st1 key = (y, st2)"
      by (cases "ReadSubKeyNames fault st1 key")
    show ?thesis
    proof (cases y)
      case (Inl e)
      with o l \<open>x = Inr key\<close> Suc.prems show ?thesis by simp
    next
      case (Inr names)
      from o l \<open>x = Inr key\<close> Inr Suc.prems obtain res3
        where d: "deleteSubKeys (deleteRegKeyRecursive_fuel n fault key) path names st2 = Some res3"
        by (auto split: option.splits)
      have d': "deleteSubKeys (deleteRegKeyRecursive_fuel (Suc n) fault key) path names st2 = Some res3"
        by (rule deleteSubKeys_mono [OF _ d]) (rule Suc.IH)
      have "deleteRegKeyRecursive_fuel (Suc (Suc n)) fault k path st
              = deleteRegKeyRecursive_fuel (Suc n) fault k path st"
        using o \<open>x = Inr key\<close> l Inr d d' by simp
      with Suc.prems show ?thesis by simp
    qed
  qed
qed

lemma deleteRegKeyRecursive_fuel_mono:
  "deleteRegKeyRecursive_fuel n fault k path st = Some res \<Longrightarrow> n \<le> m
     \<Longrightarrow> deleteRegKeyRecursive_fuel m fault k path st = Some res"
  by (induction m) (auto simp: le_Suc_eq deleteRegKeyRecursive_fuel_Suc simp del: deleteRegKeyRecursive_fuel.simps)

lemma deleteRegKeyRecursive_fuel_eq:
  assumes "deleteRegKeyRecursive_fuel n fault k path st = Some res"
    and wf: "wf_reg (reg st)"
  shows "deleteRegKeyRecursive fault k path st = Some res"
proof -
  from deleteRegKeyRecursive_total [OF wf] obtain res'
    where r: "deleteRegKeyRecursive fault k path st = Some res'"
    by blast
  let ?h = "height (reg st)"
  have "deleteRegKeyRecursive_fuel (max n ?h) fault k path st = Some res"
    by (rule deleteRegKeyRecursive_fuel_mono [OF assms(1)]) simp
  moreover have "deleteRegKeyRecursive_fuel (max n ?h) fault k path st = Some res'"
    by (rule deleteRegKeyRecursive_fuel_mono [OF r [unfolded deleteRegKeyRecursive_def]]) simp
  ultimately show ?thesis
    using r by simp
qed

subsection \<open>Erasing a key when no call fails\<close>

lemma DeleteKey_no_faults:
  "DeleteKey no_faults st k path =
     (case lookup (reg st) (k @ splitPath path) of
        None \<Rightarrow> (Inl ENOENT, st\<lparr>oplog := oplog st @ [(OpDeleteKey (k @ splitPath path), Some ENOENT)]\<rparr>)
      | Some c \<Rightarrow>
          if k @ splitPath path = [] \<or> key_subkeys c \<noteq> []
          then (Inl ERROR_ACCESS_DENIED,
                st\<lparr>oplog := oplog st @ [(OpDeleteKey (k @ splitPath path), Some ERROR_ACCESS_DENIED)]\<rparr>)
          else (Inr (), st\<lparr>reg := remove (k @ splitPath path) (reg st),
                           oplog := oplog st @ [(OpDeleteKey (k @ splitPath path), None)]\<rparr>))"
  by (simp add: DeleteKey_def adapter_call_def no_faults_def split: option.split)

lemma OpenKey_no_faults:
  "OpenKey no_faults st k path =
     (case lookup (reg st) (k @ splitPath path) of
        None \<Rightarrow> (Inl ENOENT, st\<lparr>oplog := oplog st @ [(OpOpenKey (k @ splitPath path), Some ENOENT)]\<rparr>)
      | Some c \<Rightarrow> (Inr (k @ splitPath path),
                   st\<lparr>reg := reg st, oplog := oplog st @ [(OpOpenKey (k @ splitPath path), None)]\<rparr>))"
  by (simp add: OpenKey_def adapter_call_def no_faults_def split: option.split)

lemma ReadSubKeyNames_no_faults:
  "lookup (reg st) key = Some c \<Longrightarrow>
   ReadSubKeyNames no_faults st key =
     (Inr (map fst (key_subkeys c)),
      st\<lparr>reg := reg st, oplog := oplog st @ [(OpReadSubKeyNames key, None)]\<rparr>)"
  by (simp add: ReadSubKeyNames_def adapter_call_def no_faults_def)

lemma deleteSubKeys_exact:
  assumes "\<And>name st r st'. name \<in> set names \<Longrightarrow> wf_reg (reg st) \<Longrightarrow> rec name st = Some (r, st')
             \<Longrightarrow> r = None \<and> view (reg st') = erased (P @ [name]) (view (reg st))"
    and "\<And>name st res. rec name st = Some res \<Longrightarrow> wf_reg (reg st) \<Longrightarrow> wf_reg (reg (snd res))"
    and "wf_reg (reg st)"
    and "deleteSubKeys rec path names st = Some (r, st')"
  shows "r = None \<and> wf_reg (reg st')
         \<and> view (reg st') = (\<lambda>q. if \<exists>m \<in> set names. prefix (P @ [m]) q then None else view (reg st) q)"
  using assms
proof (induction names arbitrary: st)
  case Nil
  then show ?case by auto
next
  case (Cons name rest)
  from Cons.prems(4) obtain r1 st1 where c: "rec name st = Some (r1, st1)"
    by (auto split: option.splits)
  from Cons.prems(1) [OF _ Cons.prems(3) c]
  have r1: "r1 = None" and v1: "view (reg st1) = erased (P @ [name]) (view (reg st))"
    by simp_all
  from Cons.prems(2) [OF c Cons.prems(3)] have w1: "wf_reg (reg st1)"
    by simp
  from c r1 Cons.prems(4) have d: "deleteSubKeys rec path rest st1 = Some (r, st')"
    by simp
  have "r = None \<and> wf_reg (reg st')
         \<and> view (reg st') = (\<lambda>q. if \<exists>m \<in> set rest. prefix (P @ [m]) q then None else view (reg st1) q)"
    by (rule Cons.IH [OF _ _ w1 d]) (use Cons.prems(1,2) in auto)
  then show ?case
    by (auto simp: v1 erased_def fun_eq_iff)
qed

lemma prefix_snoc_self: "\<not> prefix (P @ [m]) P"
  by (simp add: prefix_def)

text \<open>
  When no call fails, erasing a key other than the root returns no error, and the registry
  afterwards is exactly the one before without the key and everything below it.
\<close>

lemma deleteRegKeyRecursive_fuel_exact:
  assumes "wf_reg (reg st)" and "k @ splitPath path \<noteq> []"
    and "deleteRegKeyRecursive_fuel n no_faults k path st = Some (r, st')"
  shows "r = None \<and> view (reg st') = erased (k @ splitPath path) (view (reg st))"
  using assms
proof (induction n arbitrary: k path st r st')
  case 0
  then show ?case by simp
next
  case (Suc n)
  let ?P = "k @ splitPath path"
  show ?case
  proof (cases "lookup (reg st) ?P")
    case None
    then have "view (reg st) q = erased ?P (view (reg st)) q" for q
      using view_prefix_None [of "reg st" ?P q] by (simp add: erased_def view_None_iff)
    then have "view (reg st) = erased ?P (view (reg st))"
      by blast
    with None Suc.prems(3) show ?thesis
      by (auto simp: OpenKey_no_faults)
  next
    case (Some c)
    define st1 where "st1 = st\<lparr>reg := reg st, oplog := oplog st @ [(OpOpenKey ?P, None)]\<rparr>"
    define st2 where "st2 = st1\<lparr>reg := reg st1, oplog := oplog st1 @ [(OpReadSubKeyNames ?P, None)]\<rparr>"
    let ?names = "map fst (key_subkeys c)"
    have r12: "reg st1 = reg st" "reg st2 = reg st"
      by (simp_all add: st1_def st2_def)
    have o: "OpenKey no_faults st k path = (Inr ?P, st1)"
      using Some by (simp add: OpenKey_no_faults st1_def)
    have l: "ReadSubKeyNames no_faults st1 ?P = (Inr ?names, st2)"
      using Some r12 by (simp add: ReadSubKeyNames_no_faults st2_def)
    from Suc.prems(3) o l obtain r3 st3
      where d: "deleteSubKeys (deleteRegKeyRecursive_fuel n no_faults ?P) path ?names st2 = Some (r3, st3)"
      by (auto split: option.splits)
    have w2: "wf_reg (reg st2)"
      using Suc.prems(1) r12 by simp
    have e3: "r3 = None \<and> wf_reg (reg st3)
         \<and> view (reg st3) = (\<lambda>q. if \<exists>m \<in> set ?names. prefix (?P @ [m]) q then None else view (reg st2) q)"
    proof (rule deleteSubKeys_exact [OF _ _ w2 d])
      fix name s r' s'
      assume a: "name \<in> set ?names" "wf_reg (reg s)"
        "deleteRegKeyRecursive_fuel n no_faults ?P name s = Some (r', s')"
      have "splitPath name = [name]"
        using names_valid [OF Suc.prems(1) Some a(1)] by (rule splitPath_valid_name)
      with Suc.IH [OF a(2) _ a(3)]
      show "r' = None \<and> view (reg s') = erased (?P @ [name]) (view (reg s))"
        by simp
    next
      fix name s res
      assume "deleteRegKeyRecursive_fuel n no_faults ?P name s = Some res" "wf_reg (reg s)"
      with deleteRegKeyRecursive_fuel_effect [of n no_faults ?P name s res]
      show "wf_reg (reg (snd res))"
        by (simp add: erase_effect_def)
    qed
    then have r3: "r3 = None" and w3: "wf_reg (reg st3)"
      and v3: "\<And>q. view (reg st3) q = (if \<exists>m \<in> set ?names. prefix (?P @ [m]) q then None else view (reg st) q)"
      by (simp_all add: r12)
    have vP: "view (reg st3) ?P = view (reg st) ?P"
      by (simp add: v3 prefix_snoc_self)
    with Some obtain c3 where c3: "lookup (reg st3) ?P = Some c3"
      by (cases "lookup (reg st3) ?P") (auto simp: view_def)
    have "view (reg st3) (?P @ [m]) = None" for m
    proof (cases "m \<in> set ?names")
      case True
      then show ?thesis unfolding v3 by auto
    next
      case False
      with name_in_subkeys [OF Some, of m] have "view (reg st) (?P @ [m]) = None"
        by simp
      then show ?thesis by (simp add: v3)
    qed
    then have "key_subkeys c3 = []"
      using subkeys_empty_iff [OF c3] by simp
    with c3 Suc.prems(2)
    have dk: "DeleteKey no_faults st3 k path
                = (Inr (), st3\<lparr>reg := remove ?P (reg st3), oplog := oplog st3 @ [(OpDeleteKey ?P, None)]\<rparr>)"
      by (simp add: DeleteKey_no_faults)
    from Suc.prems(3) o l d r3 dk
    have res: "r = None" "reg st' = remove ?P (reg st3)"
      by auto
    have "view (reg st') q = erased ?P (view (reg st)) q" for q
    proof (cases "prefix ?P q")
      case True
      then show ?thesis
        using Suc.prems(2) by (simp add: res erased_def view_remove)
    next
      case False
      then have "\<not> prefix (?P @ [m]) q" for m
        by (meson prefix_order.trans prefixI)
      with False Suc.prems(2) show ?thesis
        by (simp add: res erased_def view_remove v3)
    qed
    with res show ?thesis by blast
  qed
qed

subsection \<open>The effect of creating a menu\<close>


lemma frame_refl: "frame P r r"
  by (simp add: frame_def)

lemma frame_trans:
  assumes "frame P r r1" and "frame P r1 r2"
  shows "frame P r r2"
  unfolding frame_def
proof (intro allI impI)
  fix q assume n: "\<not> prefix P q"
  from assms(1) n have a: "view r1 q = view r q
      \<or> (view r q = None \<and> strict_prefix q P \<and> view r1 q = Some Map.empty)"
    by (simp add: frame_def)
  from assms(2) n have b: "view r2 q = view r1 q
      \<or> (view r1 q = None \<and> strict_prefix q P \<and> view r2 q = Some Map.empty)"
    by (simp add: frame_def)
  from a b show "view r2 q = view r q
      \<or> (view r q = None \<and> strict_prefix q P \<and> view r2 q = Some Map.empty)"
    by auto
qed



lemma shrinks_frame: "shrinks_under P r r' \<Longrightarrow> frame P r r'"
  unfolding shrinks_under_def frame_def by (intro allI impI) (elim allE, auto)

lemma frame_ensure: "frame P r (ensure P r)"
  unfolding frame_def
  by (auto simp: view_ensure strict_prefix_def split: option.split)

lemma frame_set_val: "frame P r (set_val P name v r)"
  unfolding frame_def by (auto simp: view_set_val)

lemma frame_keeps:
  assumes "frame P r r'" and "\<not> prefix P q" and "view r q \<noteq> None"
  shows "view r' q = view r q"
  using assms unfolding frame_def by (elim allE [of _ q]) auto

lemma install_effect_refl: "wf_reg (reg st) \<Longrightarrow> install_effect P st (Returned None, st)"
  by (simp add: install_effect_def frame_refl run_ok_None)

lemma install_effect_trans:
  assumes "install_effect P st (Returned None, st1)" and "install_effect P st1 res"
  shows "install_effect P st res"
proof -
  from assms(1) obtain es1 where e1: "oplog st1 = oplog st @ es1" "list_all tolerated es1"
    by (auto simp: install_effect_def run_ok_None)
  from assms(2) obtain es2 where e2: "oplog (snd res) = oplog st1 @ es2" "out_ok (fst res) es2"
    by (auto simp: install_effect_def)
  have "out_ok (fst res) (es1 @ es2)"
    using e1(2) e2(2) by (cases "fst res") (simp_all add: run_ok_append)
  with e1 e2 have "\<exists>es. oplog (snd res) = oplog st @ es \<and> out_ok (fst res) es"
    by (intro exI [of _ "es1 @ es2"]) simp
  moreover have "frame P (reg st) (reg (snd res))"
  proof (rule frame_trans)
    show "frame P (reg st) (reg st1)"
      using assms(1) by (simp add: install_effect_def)
    show "frame P (reg st1) (reg (snd res))"
      using assms(2) by (simp add: install_effect_def)
  qed
  ultimately show ?thesis
    using assms(2) by (simp add: install_effect_def)
qed

lemma install_effect_wrap:
  "install_effect P st (Returned (Some e), st') \<Longrightarrow> install_effect P st (Returned (Some (Wrap w e)), st')"
  by (auto simp: install_effect_def run_ok_wrap)


lemma erase_install_effect:
  "wf_reg (reg st) \<Longrightarrow> erase_effect P st (r, st') \<Longrightarrow> install_effect P st (Returned r, st')"
  by (auto simp: install_effect_def erase_effect_def shrinks_frame)

lemma CreateKey_effect:
  assumes "CreateKey fault st CURRENT_USER path = (x, st1)" and "wf_reg (reg st)"
  shows "install_effect (splitPath path) st
           (Returned (case x of Inl e \<Rightarrow> Some (Wrap w (Errno e)) | Inr key \<Rightarrow> None), st1)"
proof -
  note r = adapter_call_result [OF assms(1) [unfolded CreateKey_def CURRENT_USER_def]]
  from r(3) have "reg st1 = reg st \<or> reg st1 = ensure (splitPath path) (reg st)"
    by auto
  then have "frame (splitPath path) (reg st) (reg st1)" "wf_reg (reg st1)"
    using assms(2) by (auto simp: frame_refl frame_ensure wf_ensure splitPath_valid)
  with r(2) show ?thesis
    by (auto simp: install_effect_def run_ok_single split: sum.splits)
qed

lemma CreateKey_handle:
  "CreateKey fault st CURRENT_USER path = (Inr key, st1) \<Longrightarrow> key = splitPath path"
  by (auto simp: CreateKey_def CURRENT_USER_def adapter_call_def split: option.splits)

lemma SetValue_effect:
  assumes "SetValue fault st key name v = (x, st1)" and "wf_reg (reg st)"
  shows "install_effect key st
           (Returned (case x of Inl e \<Rightarrow> Some (Wrap w (Errno e)) | Inr u \<Rightarrow> None), st1)"
proof -
  note r = adapter_call_result [OF assms(1) [unfolded SetValue_def]]
  from r(3) have "reg st1 = reg st \<or> reg st1 = set_val key name v (reg st)"
    by (auto split: option.splits)
  then have "frame key (reg st) (reg st1)" "wf_reg (reg st1)"
    using assms(2) by (auto simp: frame_refl frame_set_val wf_set_val)
  with r(2) show ?thesis
    by (auto simp: install_effect_def run_ok_single split: sum.splits)
qed

lemma SetStringValue_opt_effect:
  assumes "(if c then SetStringValue fault st key name v else (Inr (), st)) = (x, st1)"
    and "wf_reg (reg st)"
  shows "install_effect key st
           (Returned (case x of Inl e \<Rightarrow> Some (Wrap w (Errno e)) | Inr u \<Rightarrow> None), st1)"
proof (cases c)
  case True
  with assms show ?thesis
    using SetValue_effect [of fault st key name "SZ v" x st1 w] by (simp add: SetStringValue_def)
next
  case False
  with assms show ?thesis
    by (auto simp: install_effect_refl)
qed

lemma install_effect_wf: "install_effect P st (out, st') \<Longrightarrow> wf_reg (reg st')"
  by (simp add: install_effect_def)

lemma setAttributes_effect:
  assumes "wf_reg (reg st)"
  shows "install_effect key st (Returned (fst (setAttributes fault key item manifestDir st)),
           snd (setAttributes fault key item manifestDir st))"
proof -
  obtain x1 st1 where s1: "SetStringValue fault st key ''MUIVerb'' (Title item) = (x1, st1)"
    by (cases "SetStringValue fault st key ''MUIVerb'' (Title item)")
  have e1: "install_effect key st
     (Returned (case x1 of Inl e \<Rightarrow> Some (Wrap (FailedToSet ''MUIVerb'') (Errno e)) | Inr u \<Rightarrow> None), st1)"
    using SetStringValue_opt_effect [of True, OF _ assms] s1 by simp
  show ?thesis
  proof (cases x1)
    case (Inl e)
    with e1 s1 show ?thesis by (simp add: setAttributes_def)
  next
    case (Inr u1)
    with e1 have e1': "install_effect key st (Returned None, st1)" by simp
    note w1 = install_effect_wf [OF e1']
    obtain x2 st2 where s2: "(if Icon item manifestDir \<noteq> []
            then SetStringValue fault st1 key ''Icon'' (Icon item manifestDir)
            else (Inr (), st1)) = (x2, st2)"
      by (cases "(if Icon item manifestDir \<noteq> []
            then SetStringValue fault st1 key ''Icon'' (Icon item manifestDir)
            else (Inr (), st1))")
    note e2 = SetStringValue_opt_effect [OF s2 w1, of "FailedToSet ''Icon''"]
    show ?thesis
    proof (cases x2)
      case (Inl e)
      with install_effect_trans [OF e1' e2] s1 s2 Inr show ?thesis
        by (simp add: setAttributes_def)
    next
      case (Inr u2)
      with install_effect_trans [OF e1' e2] have e2': "install_effect key st (Returned None, st2)"
        by simp
      note w2 = install_effect_wf [OF e2']
      obtain x3 st3 where s3: "(if Extended item then SetStringValue fault st2 key ''Extended'' []
            else (Inr (), st2)) = (x3, st3)"
        by (cases "(if Extended item then SetStringValue fault st2 key ''Extended'' []
            else (Inr (), st2))")
      note e3 = SetStringValue_opt_effect [OF s3 w2, of "FailedToSet ''Extended''"]
      show ?thesis
      proof (cases x3)
        case (Inl e)
        with install_effect_trans [OF e2' e3] s1 s2 s3 \<open>x1 = Inr u1\<close> \<open>x2 = Inr u2\<close> show ?thesis
          by (simp add: setAttributes_def)
      next
        case (Inr u3)
        with install_effect_trans [OF e2' e3] have e3': "install_effect key st (Returned None, st3)"
          by simp
        note w3 = install_effect_wf [OF e3']
        obtain x4 st4 where s4: "(if Admin item then SetStringValue fault st3 key ''HasLUAShield'' []
              else (Inr (), st3)) = (x4, st4)"
          by (cases "(if Admin item then SetStringValue fault st3 key ''HasLUAShield'' []
              else (Inr (), st3))")
        note e4 = install_effect_trans [OF e3' SetStringValue_opt_effect [OF s4 w3, of "FailedToSet ''HasLUAShield''"]]
        from s1 s2 s3 s4 \<open>x1 = Inr u1\<close> \<open>x2 = Inr u2\<close> Inr
        have "setAttributes fault key item manifestDir st
                = (case x4 of Inl e \<Rightarrow> Some (Wrap (FailedToSet ''HasLUAShield'') (Errno e)) | Inr u \<Rightarrow> None, st4)"
          by (simp add: setAttributes_def split: sum.split)
        with e4 show ?thesis by simp
      qed
    qed
  qed
qed


lemma splitPath_command: "splitPath ''command'' = [''command'']"
  by (simp add: splitPath_valid_name valid_name_def bs_def)


lemma splitPath_command_key: "splitPath (keyPath @ bs # ''command'') = splitPath keyPath @ [''command'']"
  using splitPath_append [of keyPath "''command''"] by (simp add: splitPath_command)



lemma deleteRegKeyRecursive_effect:
  assumes "wf_reg (reg st)"
  shows "\<exists>r st'. deleteRegKeyRecursive fault k path st = Some (r, st')
           \<and> erase_effect (k @ splitPath path) st (r, st')"
proof -
  from deleteRegKeyRecursive_total [OF assms] obtain res
    where r: "deleteRegKeyRecursive fault k path st = Some res"
    by blast
  from deleteRegKeyRecursive_fuel_effect [OF r [unfolded deleteRegKeyRecursive_def]] r
  show ?thesis by (cases res) auto
qed

lemma install_effect_var:
  "install_effect P st (out, st') \<Longrightarrow> install_effect P st (out, st'\<lparr>nircmdPath_var := var\<rparr>)"
  by (simp add: install_effect_def)

lemma createCommand_effect:
  assumes "wf_reg (reg st)"
  shows "\<exists>res. createCommand fault os keyPath0 item manifestDir st = Some res
           \<and> install_effect (splitPath keyPath0 @ [''command'']) st res"
proof -
  let ?keyPath = "keyPath0 @ [bs] @ ''command''"
  let ?P = "splitPath keyPath0 @ [''command'']"
  have pc: "splitPath ?keyPath = ?P"
    by (simp add: splitPath_command_key)
  from deleteRegKeyRecursive_effect [OF assms, of fault CURRENT_USER ?keyPath] obtain r1 st1
    where d: "deleteRegKeyRecursive fault CURRENT_USER ?keyPath st = Some (r1, st1)"
      and ed: "erase_effect ?P st (r1, st1)"
    by (auto simp: CURRENT_USER_def splitPath_command_key)
  have e1: "install_effect ?P st (Returned r1, st1)"
    by (rule erase_install_effect [OF assms ed])
  show ?thesis
  proof (cases r1)
    case (Some err)
    with d install_effect_wrap [of ?P st err st1] e1 show ?thesis
      by (simp add: createCommand_def)
  next
    case None
    with e1 have e1': "install_effect ?P st (Returned None, st1)" by simp
    note w1 = install_effect_wf [OF e1']
    obtain x2 st2 where c: "CreateKey fault st1 CURRENT_USER ?keyPath = (x2, st2)"
      by (cases "CreateKey fault st1 CURRENT_USER ?keyPath")
    have e2: "install_effect ?P st
       (Returned (case x2 of Inl e \<Rightarrow> Some (Wrap (FailedToCreateRegistryKey ?keyPath) (Errno e)) | Inr k \<Rightarrow> None), st2)"
      by (rule install_effect_trans [OF e1' CreateKey_effect [OF c w1, unfolded pc]])
    show ?thesis
    proof (cases x2)
      case (Inl e)
      with d c None e2 show ?thesis
        by (simp add: createCommand_def)
    next
      case (Inr key)
      with c have key: "key = ?P"
        using CreateKey_handle [of fault st1 ?keyPath key st2] pc by simp
      from Inr e2 have e2': "install_effect ?P st (Returned None, st2)" by simp
      obtain cs var where cmd: "CommandString os item manifestDir (nircmdPath_var st2) = (cs, var)"
        by (cases "CommandString os item manifestDir (nircmdPath_var st2)")
      let ?st2 = "st2\<lparr>nircmdPath_var := var\<rparr>"
      have e2v: "install_effect ?P st (Returned None, ?st2)"
        using e2' by (rule install_effect_var)
      show ?thesis
      proof (cases cs)
        case (Inl err)
        have "install_effect ?P st (Exited err, ?st2)"
          using e2v by (simp add: install_effect_def run_ok_None)
        with d c None \<open>x2 = Inr key\<close> cmd Inl show ?thesis
          by (simp add: createCommand_def)
      next
        case (Inr command)
        obtain x3 st3 where s: "SetExpandStringValue fault ?st2 key [] command = (x3, st3)"
          by (cases "SetExpandStringValue fault ?st2 key [] command")
        have "install_effect ?P ?st2
          (Returned (case x3 of Inl e \<Rightarrow> Some (Wrap (FailedToSet ''command string'') (Errno e)) | Inr u \<Rightarrow> None), st3)"
          using SetValue_effect [OF s [unfolded SetExpandStringValue_def]] install_effect_wf [OF e2v] key
          by simp
        from install_effect_trans [OF e2v this] d c None \<open>x2 = Inr key\<close> cmd Inr s show ?thesis
          by (cases x3) (simp_all add: createCommand_def)
      qed
    qed
  qed
qed





subsection \<open>Creating a menu when no call fails\<close>

lemma CreateKey_no_faults:
  "CreateKey no_faults st CURRENT_USER path =
     (Inr (splitPath path),
      st\<lparr>reg := ensure (splitPath path) (reg st),
         oplog := oplog st @ [(OpCreateKey (splitPath path), None)]\<rparr>)"
  by (simp add: CreateKey_def CURRENT_USER_def adapter_call_def no_faults_def)

lemma SetValue_no_faults:
  "SetValue no_faults st key name v =
     (if view (reg st) key = None
      then (Inl ERROR_KEY_DELETED, st\<lparr>oplog := oplog st @ [(OpSetValue key name, Some ERROR_KEY_DELETED)]\<rparr>)
      else (Inr (), st\<lparr>reg := set_val key name v (reg st),
                       oplog := oplog st @ [(OpSetValue key name, None)]\<rparr>))"
  by (auto simp: SetValue_def adapter_call_def no_faults_def view_None_iff split: option.split)

lemma view_set_val_fun:
  "view r key = Some m \<Longrightarrow> view (set_val key name v r) = (view r)(key \<mapsto> put_val name v m)"
  by (rule ext) (simp add: view_set_val)

lemma SetStringValue_opt_no_faults:
  assumes "view (reg st) key = Some m"
  shows "\<exists>st'. (if c then SetStringValue no_faults st key name v else (Inr (), st)) = (Inr (), st')
           \<and> nircmdPath_var st' = nircmdPath_var st
           \<and> view (reg st') = (view (reg st))(key \<mapsto> (if c then put_val name (SZ v) m else m))"
  using assms
  by (cases c) (auto simp: SetStringValue_def SetValue_no_faults view_set_val_fun)

lemma setAttributes_no_faults:
  assumes "view (reg st) key = Some m"
  shows "\<exists>st'. setAttributes no_faults key item manifestDir st = (None, st')
           \<and> nircmdPath_var st' = nircmdPath_var st
           \<and> view (reg st') = (view (reg st))(key \<mapsto> attr_update item manifestDir m)"
proof -
  let ?m1 = "put_val ''MUIVerb'' (SZ (Title item)) m"
  from SetStringValue_opt_no_faults [OF assms, of True "''MUIVerb''" "Title item"] obtain st1
    where s1: "SetStringValue no_faults st key ''MUIVerb'' (Title item) = (Inr (), st1)"
      "nircmdPath_var st1 = nircmdPath_var st"
      "view (reg st1) = (view (reg st))(key \<mapsto> ?m1)"
    by auto
  let ?m2 = "if Icon item manifestDir \<noteq> [] then put_val ''Icon'' (SZ (Icon item manifestDir)) ?m1 else ?m1"
  have v1: "view (reg st1) key = Some ?m1" by (simp add: s1(3))
  from SetStringValue_opt_no_faults [OF v1, of "Icon item manifestDir \<noteq> []" "''Icon''" "Icon item manifestDir"]
  obtain st2
    where s2: "(if Icon item manifestDir \<noteq> []
            then SetStringValue no_faults st1 key ''Icon'' (Icon item manifestDir)
            else (Inr (), st1)) = (Inr (), st2)"
      "nircmdPath_var st2 = nircmdPath_var st1"
      "view (reg st2) = (view (reg st1))(key \<mapsto> ?m2)"
    by auto
  let ?m3 = "if Extended item then put_val ''Extended'' (SZ []) ?m2 else ?m2"
  have v2: "view (reg st2) key = Some ?m2" by (simp add: s2(3))
  from SetStringValue_opt_no_faults [OF v2, of "Extended item" "''Extended''" "[]"]
  obtain st3
    where s3: "(if Extended item then SetStringValue no_faults st2 key ''Extended'' []
            else (Inr (), st2)) = (Inr (), st3)"
      "nircmdPath_var st3 = nircmdPath_var st2"
      "view (reg st3) = (view (reg st2))(key \<mapsto> ?m3)"
    by auto
  let ?m4 = "if Admin item then put_val ''HasLUAShield'' (SZ []) ?m3 else ?m3"
  have v3: "view (reg st3) key = Some ?m3" by (simp add: s3(3))
  from SetStringValue_opt_no_faults [OF v3, of "Admin item" "''HasLUAShield''" "[]"]
  obtain st4
    where s4: "(if Admin item then SetStringValue no_faults st3 key ''HasLUAShield'' []
            else (Inr (), st3)) = (Inr (), st4)"
      "nircmdPath_var st4 = nircmdPath_var st3"
      "view (reg st4) = (view (reg st3))(key \<mapsto> ?m4)"
    by auto
  have "setAttributes no_faults key item manifestDir st = (None, st4)"
    by (simp add: setAttributes_def s1(1) s2(1) s3(1) s4(1) split del: if_split cong: if_cong)
  moreover have "view (reg st4) = (view (reg st))(key \<mapsto> attr_update item manifestDir m)"
    unfolding s4(3) s3(3) s2(3) s1(3) attr_update_def Let_def by simp
  ultimately show ?thesis
    using s1(2) s2(2) s3(2) s4(2) by simp
qed

lemma deleteRegKeyRecursive_no_faults:
  assumes "wf_reg (reg st)" and "splitPath path \<noteq> []"
  shows "\<exists>st'. deleteRegKeyRecursive no_faults CURRENT_USER path st = Some (None, st')
           \<and> nircmdPath_var st' = nircmdPath_var st \<and> wf_reg (reg st')
           \<and> view (reg st') = erased (splitPath path) (view (reg st))"
proof -
  from deleteRegKeyRecursive_effect [OF assms(1), of no_faults CURRENT_USER path] obtain r st'
    where d: "deleteRegKeyRecursive no_faults CURRENT_USER path st = Some (r, st')"
      and e: "erase_effect (splitPath path) st (r, st')"
    by (auto simp: CURRENT_USER_def)
  from deleteRegKeyRecursive_fuel_exact [OF assms(1) _ d [unfolded deleteRegKeyRecursive_def]] assms(2)
  have "r = None \<and> view (reg st') = erased (splitPath path) (view (reg st))"
    by (simp add: CURRENT_USER_def)
  with d e assms(1) show ?thesis
    by (simp add: erase_effect_def)
qed

lemma splitPath_shell_root:
  "splitPath shell_root = [''Software'', ''Classes'', ''Directory'', ''Background'', ''shell'']"
  by (simp add: shell_root_def splitPath_def bs_def)

lemma splitPath_keyPath:
  "splitPath (shell_root @ parent @ [bs] @ ident) = splitPath (shell_root @ parent) @ splitPath ident"
  using splitPath_append [of "shell_root @ parent" ident] by simp

lemma segments_nonempty: "cur \<noteq> [] \<Longrightarrow> segments cur s \<noteq> []"
  by (induction s arbitrary: cur) auto

lemma splitPath_shell_root_append: "splitPath (shell_root @ parent) \<noteq> []"
  by (simp add: splitPath_def shell_root_def bs_def segments_nonempty)

lemma keyPath_nonempty: "splitPath (shell_root @ parent @ [bs] @ ident) \<noteq> []"
  by (simp only: splitPath_keyPath) (simp add: splitPath_shell_root_append)

lemma view_ensure_self:
  "view r P = None \<Longrightarrow> view (ensure P r) P = Some Map.empty"
  by (simp add: view_ensure)

lemma view_ensure_below:
  "view r q = None \<Longrightarrow> strict_prefix P q \<Longrightarrow> view (ensure P r) q = None"
  by (auto simp: view_ensure strict_prefix_def)

lemma erased_self: "erased P v P = None"
  by (simp add: erased_def)

lemma erased_below: "strict_prefix P q \<Longrightarrow> erased P v q = None"
  by (simp add: erased_def strict_prefix_def)

lemma createCommand_no_faults:
  assumes "wf_reg (reg st)"
    and "CommandString os item manifestDir (nircmdPath_var st) = (cs, var)"
  shows "\<exists>st'. createCommand no_faults os keyPath0 item manifestDir st
                  = Some (case cs of Inl err \<Rightarrow> Exited err | Inr command \<Rightarrow> Returned None, st')
           \<and> nircmdPath_var st' = var
           \<and> view (reg st') (splitPath keyPath0 @ [''command''])
               = Some (case cs of Inl err \<Rightarrow> Map.empty
                       | Inr command \<Rightarrow> put_val [] (EXPAND_SZ command) Map.empty)
           \<and> (\<forall>q. strict_prefix (splitPath keyPath0 @ [''command'']) q \<longrightarrow> view (reg st') q = None)"
proof -
  let ?keyPath = "keyPath0 @ [bs] @ ''command''"
  let ?Pc = "splitPath keyPath0 @ [''command'']"
  have pc: "splitPath ?keyPath = ?Pc"
    by (simp add: splitPath_command_key)
  then have ne: "splitPath ?keyPath \<noteq> []"
    by simp
  from deleteRegKeyRecursive_no_faults [OF assms(1) ne] obtain st1
    where d: "deleteRegKeyRecursive no_faults CURRENT_USER ?keyPath st = Some (None, st1)"
      and v1: "nircmdPath_var st1 = nircmdPath_var st" "wf_reg (reg st1)"
        "view (reg st1) = erased ?Pc (view (reg st))"
    unfolding pc by blast
  define st2 where "st2 = st1\<lparr>reg := ensure ?Pc (reg st1), oplog := oplog st1 @ [(OpCreateKey ?Pc, None)]\<rparr>"
  have c: "CreateKey no_faults st1 CURRENT_USER ?keyPath = (Inr ?Pc, st2)"
    unfolding CreateKey_no_faults pc st2_def by simp
  have v2: "view (reg st2) ?Pc = Some Map.empty"
    "\<And>q. strict_prefix ?Pc q \<Longrightarrow> view (reg st2) q = None"
    "nircmdPath_var st2 = nircmdPath_var st"
    by (simp_all add: st2_def view_ensure_self view_ensure_below v1 erased_self erased_below)
  let ?st2 = "st2\<lparr>nircmdPath_var := var\<rparr>"
  show ?thesis
  proof (cases cs)
    case (Inl err)
    have "createCommand no_faults os keyPath0 item manifestDir st = Some (Exited err, ?st2)"
      using d c assms(2) Inl v2(3) by (simp add: createCommand_def)
    with Inl v2 show ?thesis by simp
  next
    case (Inr command)
    define st3 where "st3 = ?st2\<lparr>reg := set_val ?Pc [] (EXPAND_SZ command) (reg ?st2),
                       oplog := oplog ?st2 @ [(OpSetValue ?Pc [], None)]\<rparr>"
    have s: "SetExpandStringValue no_faults ?st2 ?Pc [] command = (Inr (), st3)"
      using v2(1) by (simp add: SetExpandStringValue_def SetValue_no_faults st3_def)
    have "createCommand no_faults os keyPath0 item manifestDir st = Some (Returned None, st3)"
      using d c assms(2) Inr v2(3) s by (simp add: createCommand_def)
    moreover have "view (reg st3) ?Pc = Some (put_val [] (EXPAND_SZ command) Map.empty)"
      using v2(1) by (simp add: st3_def view_set_val)
    moreover have "view (reg st3) q = None" if "strict_prefix ?Pc q" for q
      using v2(2) [OF that] that by (auto simp: st3_def view_set_val strict_prefix_def)
    moreover have "nircmdPath_var st3 = var"
      by (simp add: st3_def)
    ultimately show ?thesis
      using Inr by simp
  qed
qed

lemma createContextMenu_item_no_faults:
  assumes "wf_reg (reg st)" and "Type item \<noteq> ContextMenuType_Folder"
    and "CommandString os item manifestDir (nircmdPath_var st) = (cs, var)"
  shows "\<exists>st'. createContextMenu no_faults os parent ident item manifestDir st
                  = Some (case cs of Inl err \<Rightarrow> Exited err | Inr command \<Rightarrow> Returned None, st')
           \<and> nircmdPath_var st' = var
           \<and> view (reg st') (splitPath (shell_root @ parent @ [bs] @ ident))
               = Some (attr_update item manifestDir Map.empty)
           \<and> view (reg st') (splitPath (shell_root @ parent @ [bs] @ ident) @ [''command''])
               = Some (case cs of Inl err \<Rightarrow> Map.empty
                       | Inr command \<Rightarrow> put_val [] (EXPAND_SZ command) Map.empty)
           \<and> (\<forall>q. strict_prefix (splitPath (shell_root @ parent @ [bs] @ ident)) q
                  \<and> q \<noteq> splitPath (shell_root @ parent @ [bs] @ ident) @ [''command'']
                  \<longrightarrow> view (reg st') q = None)"
proof -
  let ?keyPath = "shell_root @ parent @ [bs] @ ident"
  let ?P = "splitPath ?keyPath"
  let ?Pc = "?P @ [''command'']"
  have ne: "?P \<noteq> []" by (rule keyPath_nonempty)
  from deleteRegKeyRecursive_no_faults [OF assms(1) ne] obtain st1
    where d: "deleteRegKeyRecursive no_faults CURRENT_USER ?keyPath st = Some (None, st1)"
      and v1: "nircmdPath_var st1 = nircmdPath_var st" "wf_reg (reg st1)"
        "view (reg st1) = erased ?P (view (reg st))"
    by blast
  define st2 where "st2 = st1\<lparr>reg := ensure ?P (reg st1), oplog := oplog st1 @ [(OpCreateKey ?P, None)]\<rparr>"
  have c: "CreateKey no_faults st1 CURRENT_USER ?keyPath = (Inr ?P, st2)"
    unfolding CreateKey_no_faults st2_def by simp
  have v2: "view (reg st2) ?P = Some Map.empty"
    "\<And>q. strict_prefix ?P q \<Longrightarrow> view (reg st2) q = None"
    "nircmdPath_var st2 = nircmdPath_var st"
    by (simp_all add: st2_def view_ensure_self view_ensure_below v1 erased_self erased_below)
  have w2: "wf_reg (reg st2)"
    using v1(2) by (simp add: st2_def wf_ensure splitPath_valid)
  from setAttributes_no_faults [OF v2(1), of item manifestDir] obtain st3
    where a: "setAttributes no_faults ?P item manifestDir st2 = (None, st3)"
      and v3: "nircmdPath_var st3 = nircmdPath_var st2"
        "view (reg st3) = (view (reg st2))(?P \<mapsto> attr_update item manifestDir Map.empty)"
    by blast
  have w3: "wf_reg (reg st3)"
    using setAttributes_effect [OF w2, of ?P no_faults item manifestDir] a
    by (simp add: install_effect_def)
  have cmd: "CommandString os item manifestDir (nircmdPath_var st3) = (cs, var)"
    using assms(3) v3(1) v2(3) by simp
  from createCommand_no_faults [OF w3 cmd, of ?keyPath] obtain st4
    where cc: "createCommand no_faults os ?keyPath item manifestDir st3
                 = Some (case cs of Inl err \<Rightarrow> Exited err | Inr command \<Rightarrow> Returned None, st4)"
      and v4: "nircmdPath_var st4 = var"
        "view (reg st4) ?Pc = Some (case cs of Inl err \<Rightarrow> Map.empty
                       | Inr command \<Rightarrow> put_val [] (EXPAND_SZ command) Map.empty)"
        "\<And>q. strict_prefix ?Pc q \<Longrightarrow> view (reg st4) q = None"
    by blast
  from createCommand_effect [OF w3, of no_faults os ?keyPath item manifestDir] cc
  have "install_effect ?Pc st3 (case cs of Inl err \<Rightarrow> Exited err | Inr command \<Rightarrow> Returned None, st4)"
    by simp
  then have fr: "frame ?Pc (reg st3) (reg st4)"
    by (simp add: install_effect_def)
  have k: "view (reg st3) ?P = Some (attr_update item manifestDir Map.empty)"
    by (simp add: v3(2))
  have "view (reg st4) ?P = view (reg st3) ?P"
    by (rule frame_keeps [OF fr]) (use k in simp_all)
  with k have r1: "view (reg st4) ?P = Some (attr_update item manifestDir Map.empty)"
    by simp
  have r2: "view (reg st4) q = None" if q: "strict_prefix ?P q" "q \<noteq> ?Pc" for q
  proof (cases "prefix ?Pc q")
    case True
    with q(2) have "strict_prefix ?Pc q" by (simp add: strict_prefix_def)
    then show ?thesis by (rule v4(3))
  next
    case False
    from q(1) have n3: "view (reg st3) q = None"
      using v2(2) [OF q(1)] by (auto simp: v3(2) strict_prefix_def)
    from fr False have "view (reg st4) q = view (reg st3) q
        \<or> (view (reg st3) q = None \<and> strict_prefix q ?Pc \<and> view (reg st4) q = Some Map.empty)"
      by (simp add: frame_def)
    moreover have "\<not> strict_prefix q ?Pc"
    proof
      assume "strict_prefix q ?Pc"
      then have "prefix q ?P" by (auto simp: strict_prefix_def prefix_snoc)
      with q(1) show False by (auto simp: strict_prefix_def)
    qed
    ultimately show ?thesis using n3 by simp
  qed
  have "createContextMenu no_faults os parent ident item manifestDir st
          = Some (case cs of Inl err \<Rightarrow> Exited err | Inr command \<Rightarrow> Returned None, st4)"
    using d c a cc assms(2) by (subst createContextMenu.simps) simp
  with v4(1,2) r1 r2 show ?thesis
    by blast
qed

subsection \<open>An entry that is not a folder\<close>

lemma wf_clean_state: "wf_reg (reg clean_state)"
  by (simp add: clean_state_def wf_empty_key)

lemma createContextMenu_ignores_Items:
  assumes "Type item \<noteq> ContextMenuType_Folder"
  shows "createContextMenu fault os parent ident item manifestDir st
           = createContextMenu fault os parent ident (without_Items item) manifestDir st"
proof -
  have sels0: "Title (without_Items item) = Title item"
    "Extended (without_Items item) = Extended item"
    "Admin (without_Items item) = Admin item"
    "Command (without_Items item) = Command item"
    "IconPath (without_Items item) = IconPath item"
    "IconIndex (without_Items item) = IconIndex item"
    by (simp_all add: without_Items_def)
  have "Icon (without_Items item) manifestDir = Icon item manifestDir"
    unfolding Icon_def sels0 ..
  moreover have "CommandString os (without_Items item) manifestDir = CommandString os item manifestDir"
    unfolding CommandString_def sels0 ..
  ultimately have sels: "Title (without_Items item) = Title item"
    "Extended (without_Items item) = Extended item"
    "Admin (without_Items item) = Admin item"
    "Icon (without_Items item) manifestDir = Icon item manifestDir"
    "CommandString os (without_Items item) manifestDir = CommandString os item manifestDir"
    using sels0 by simp_all
  have a: "setAttributes fault key (without_Items item) manifestDir s
             = setAttributes fault key item manifestDir s" for key s
    unfolding setAttributes_def sels ..
  have c: "createCommand fault os keyPath (without_Items item) manifestDir s
             = createCommand fault os keyPath item manifestDir s" for keyPath s
    unfolding createCommand_def sels ..
  have t: "Type (without_Items item) = Type item"
    by (simp add: without_Items_def)
  show ?thesis
    unfolding createContextMenu.simps [of fault os parent ident item]
      createContextMenu.simps [of fault os parent ident "without_Items item"]
      a c t if_not_P [OF assms] ..
qed

lemma attr_update_SubCommands: "attr_update item manifestDir Map.empty ''SubCommands'' = None"
  by (simp add: attr_update_def put_val_def Let_def)

lemma attr_update_MUIVerb: "attr_update item manifestDir Map.empty ''MUIVerb'' = Some (SZ (Title item))"
  by (simp add: attr_update_def put_val_def Let_def)

text \<open>
  C10. For every node whose \<open>type\<close> is any string other than \<open>folder\<close> (the empty
  string and unknown values included), \<^verbatim>\<open>createContextMenu\<close> never looks at \<open>items\<close>: under
  every behaviour of the registry the result is that of the node with no items. When the
  registry calls succeed and the command projection returns, the call returns no error, the
  key \<open>command\<close> under the node's key holds the projected command string as its default
  value, the node's key holds \<open>MUIVerb\<close> and no \<open>SubCommands\<close>, there is no key \<open>shell\<close>
  under it, and nothing else lies under the node's key.
\<close>

theorem C10_not_folder_is_item:
  assumes "Type item \<noteq> ''folder''"
    and "wf_reg (reg st)"
    and "CommandString os item manifestDir (nircmdPath_var st) = (Inr command, var)"
  shows "(\<forall>fault s. createContextMenu fault os parent ident item manifestDir s
            = createContextMenu fault os parent ident (without_Items item) manifestDir s)
       \<and> (\<exists>st' m. createContextMenu no_faults os parent ident item manifestDir st
                     = Some (Returned None, st')
            \<and> view (reg st') (splitPath (shell_root @ parent @ [bs] @ ident) @ [''command''])
                = Some (Map.empty([] \<mapsto> EXPAND_SZ command))
            \<and> view (reg st') (splitPath (shell_root @ parent @ [bs] @ ident)) = Some m
            \<and> m ''MUIVerb'' = Some (SZ (Title item))
            \<and> m ''SubCommands'' = None
            \<and> view (reg st') (splitPath (shell_root @ parent @ [bs] @ ident) @ [''shell'']) = None
            \<and> (\<forall>q. strict_prefix (splitPath (shell_root @ parent @ [bs] @ ident)) q
                   \<and> q \<noteq> splitPath (shell_root @ parent @ [bs] @ ident) @ [''command'']
                   \<longrightarrow> view (reg st') q = None))"
proof
  from assms(1) have nf: "Type item \<noteq> ContextMenuType_Folder"
    by (simp add: ContextMenuType_Folder_def)
  then show "\<forall>fault s. createContextMenu fault os parent ident item manifestDir s
            = createContextMenu fault os parent ident (without_Items item) manifestDir s"
    by (simp add: createContextMenu_ignores_Items)
  let ?P = "splitPath (shell_root @ parent @ [bs] @ ident)"
  from createContextMenu_item_no_faults [OF assms(2) nf assms(3), of parent ident] obtain st'
    where r: "createContextMenu no_faults os parent ident item manifestDir st = Some (Returned None, st')"
      "view (reg st') ?P = Some (attr_update item manifestDir Map.empty)"
      "view (reg st') (?P @ [''command'']) = Some (put_val [] (EXPAND_SZ command) Map.empty)"
      "\<forall>q. strict_prefix ?P q \<and> q \<noteq> ?P @ [''command''] \<longrightarrow> view (reg st') q = None"
    by auto
  have "view (reg st') (?P @ [''shell'']) = None"
    using r(4) by (simp add: strict_prefix_def)
  with r show "\<exists>st' m. createContextMenu no_faults os parent ident item manifestDir st
                     = Some (Returned None, st')
            \<and> view (reg st') (?P @ [''command'']) = Some (Map.empty([] \<mapsto> EXPAND_SZ command))
            \<and> view (reg st') ?P = Some m
            \<and> m ''MUIVerb'' = Some (SZ (Title item))
            \<and> m ''SubCommands'' = None
            \<and> view (reg st') (?P @ [''shell'']) = None
            \<and> (\<forall>q. strict_prefix ?P q \<and> q \<noteq> ?P @ [''command''] \<longrightarrow> view (reg st') q = None)"
    by (intro exI [of _ st'] exI [of _ "attr_update item manifestDir Map.empty"])
      (simp add: attr_update_SubCommands attr_update_MUIVerb put_val_def)
qed

lemma CommandString_untyped_item:
  "CommandString os_without_helper untyped_item menu_dir (nircmdPath_var clean_state) = (Inr ''cmd.exe'', [])"
  by (simp add: CommandString_not_Admin untyped_item_def clean_state_def projectToken_def manifestFolder_def)

theorem C10_not_folder_is_item_witness:
  "Type untyped_item \<noteq> ''folder'' \<and> wf_reg (reg clean_state) \<and> Items untyped_item \<noteq> []
   \<and> (\<exists>st'. createContextMenu no_faults os_without_helper [] ''prompt'' untyped_item menu_dir clean_state
               = Some (Returned None, st')
          \<and> view (reg st') (splitPath (shell_root @ [] @ [bs] @ ''prompt'') @ [''command''])
                = Some (Map.empty([] \<mapsto> EXPAND_SZ ''cmd.exe''))
          \<and> view (reg st') (splitPath (shell_root @ [] @ [bs] @ ''prompt'') @ [''shell'']) = None)"
proof -
  have t: "Type untyped_item \<noteq> ''folder''" and i: "Items untyped_item \<noteq> []"
    by (simp_all add: untyped_item_def)
  from C10_not_folder_is_item [OF t wf_clean_state CommandString_untyped_item, of "[]" "''prompt''"]
  have "\<exists>st'. createContextMenu no_faults os_without_helper [] ''prompt'' untyped_item menu_dir clean_state
               = Some (Returned None, st')
          \<and> view (reg st') (splitPath (shell_root @ [] @ [bs] @ ''prompt'') @ [''command''])
                = Some (Map.empty([] \<mapsto> EXPAND_SZ ''cmd.exe''))
          \<and> view (reg st') (splitPath (shell_root @ [] @ [bs] @ ''prompt'') @ [''shell'']) = None"
    by blast
  with t i wf_clean_state show ?thesis by blast
qed

subsection \<open>A missing helper\<close>





subsection \<open>The order of the deletions\<close>

lemma delete_paths_append: "delete_paths (a @ b) = delete_paths a @ delete_paths b"
  by (induction a rule: delete_paths.induct) simp_all

lemma descendants_first_append:
  "descendants_first (a @ b)
     \<longleftrightarrow> descendants_first a \<and> descendants_first b
         \<and> (\<forall>p \<in> set a. \<forall>q \<in> set b. \<not> strict_prefix p q)"
  by (induction a) (auto simp: list_all_iff)

lemma delete_paths_under: "under P es \<Longrightarrow> p \<in> set (delete_paths es) \<Longrightarrow> prefix P p"
  by (induction es rule: delete_paths.induct) (auto simp: under_def)

lemma siblings_disjoint:
  assumes "prefix (P @ [a]) p" and "prefix (P @ [b]) q" and "a \<noteq> b"
  shows "\<not> strict_prefix p q"
proof
  assume "strict_prefix p q"
  then have "prefix p q" by (simp add: strict_prefix_def)
  with assms(1) have "prefix (P @ [a]) q" by (rule prefix_order.trans)
  from prefix_same_cases [OF this assms(2)]
  have "prefix (P @ [a]) (P @ [b]) \<or> prefix (P @ [b]) (P @ [a])" .
  with assms(3) show False by auto
qed

lemma below_not_above:
  assumes "prefix (P @ [a]) p"
  shows "\<not> strict_prefix p P"
proof
  assume "strict_prefix p P"
  then have "prefix p P" by (simp add: strict_prefix_def)
  with assms have "prefix (P @ [a]) P" by (rule prefix_order.trans)
  then show False by (simp add: prefix_def)
qed

lemma names_distinct:
  assumes "wf_reg r" and "lookup r p = Some c"
  shows "distinct (map fst (key_subkeys c))"
proof -
  from assms have "wf_reg c" by (rule wf_lookup)
  then show ?thesis by (cases c) (simp add: wf_reg.simps)
qed

lemma erase_trace_step:
  assumes "oplog st1 = oplog st @ [x]" and "delete_paths [x] = []" and "prefix P (op_path (fst x))"
    and "erase_trace P st1 res"
  shows "erase_trace P st res"
proof -
  from assms(4) obtain es where "oplog (snd res) = oplog st1 @ es" "postorder es" "under P es"
    by (auto simp: erase_trace_def)
  with assms(1,2,3) have "oplog (snd res) = oplog st @ (x # es)" "postorder (x # es)" "under P (x # es)"
    using delete_paths_append [of "[x]" es] by (simp_all add: postorder_def under_def)
  then show ?thesis
    unfolding erase_trace_def by blast
qed

lemma deleteSubKeys_trace:
  assumes "\<And>name st res. name \<in> set names \<Longrightarrow> wf_reg (reg st) \<Longrightarrow> rec name st = Some res
             \<Longrightarrow> erase_trace (P @ [name]) st res \<and> wf_reg (reg (snd res))"
    and "distinct names" and "wf_reg (reg st)"
    and "deleteSubKeys rec path names st = Some res"
  shows "\<exists>es. oplog (snd res) = oplog st @ es \<and> postorder es
           \<and> (\<forall>p \<in> set (delete_paths es). \<exists>m \<in> set names. prefix (P @ [m]) p)
           \<and> under P es"
  using assms
proof (induction names arbitrary: st)
  case Nil
  then show ?case by (auto simp: postorder_def under_def)
next
  case (Cons name rest)
  from Cons.prems(4) obtain r1 st1 where c: "rec name st = Some (r1, st1)"
    by (auto split: option.splits)
  from Cons.prems(1) [OF _ Cons.prems(3) c]
  have t1: "erase_trace (P @ [name]) st (r1, st1)" and w1: "wf_reg (reg st1)"
    by simp_all
  from t1 obtain es1 where e1: "oplog st1 = oplog st @ es1" "postorder es1" "under (P @ [name]) es1"
    by (auto simp: erase_trace_def)
  have u1: "under P es1"
    by (rule under_mono [OF _ e1(3)]) simp
  have d1: "\<forall>p \<in> set (delete_paths es1). prefix (P @ [name]) p"
    using delete_paths_under [OF e1(3)] by blast
  show ?case
  proof (cases r1)
    case (Some err)
    with c Cons.prems(4) have "snd res = st1" by auto
    with e1 u1 d1 show ?thesis
      by (intro exI [of _ es1]) auto
  next
    case None
    with c Cons.prems(4) have d: "deleteSubKeys rec path rest st1 = Some res"
      by simp
    from Cons.prems(2) have dr: "distinct rest" and nm: "name \<notin> set rest"
      by simp_all
    have "\<exists>es. oplog (snd res) = oplog st1 @ es \<and> postorder es
           \<and> (\<forall>p \<in> set (delete_paths es). \<exists>m \<in> set rest. prefix (P @ [m]) p)
           \<and> under P es"
      by (rule Cons.IH [OF _ dr w1 d]) (use Cons.prems(1) in auto)
    then obtain es2 where e2: "oplog (snd res) = oplog st1 @ es2" "postorder es2"
      "\<forall>p \<in> set (delete_paths es2). \<exists>m \<in> set rest. prefix (P @ [m]) p" "under P es2"
      by blast
    have cross: "\<not> strict_prefix p q"
      if "p \<in> set (delete_paths es1)" "q \<in> set (delete_paths es2)" for p q
    proof -
      from that(1) d1 have a: "prefix (P @ [name]) p" by blast
      from that(2) e2(3) obtain m where m: "m \<in> set rest" "prefix (P @ [m]) q" by blast
      with nm have "name \<noteq> m" by auto
      from siblings_disjoint [OF a m(2) this] show ?thesis .
    qed
    have "postorder (es1 @ es2)"
      using e1(2) e2(2) cross
      by (simp add: postorder_def delete_paths_append descendants_first_append)
    moreover have "\<forall>p \<in> set (delete_paths (es1 @ es2)). \<exists>m \<in> set (name # rest). prefix (P @ [m]) p"
      using d1 e2(3) by (auto simp: delete_paths_append)
    moreover have "under P (es1 @ es2)"
      using u1 e2(4) by (simp add: under_def)
    moreover have "oplog (snd res) = oplog st @ (es1 @ es2)"
      using e1(1) e2(1) by simp
    ultimately show ?thesis by blast
  qed
qed

lemma adapter_call_log:
  "adapter_call fault op f st = (x, st1) \<Longrightarrow> \<exists>r. oplog st1 = oplog st @ [(op, r)]"
  by (auto simp: adapter_call_def split: option.splits sum.splits)

lemma adapter_call_wf:
  assumes "adapter_call fault op f st = (x, st1)" and "wf_reg (reg st)"
    and "\<And>y r. f (reg st) = Inr (y, r) \<Longrightarrow> wf_reg r"
  shows "wf_reg (reg st1)"
  using assms by (auto simp: adapter_call_def split: option.splits sum.splits)

lemma deleteRegKeyRecursive_fuel_trace:
  assumes "wf_reg (reg st)" and "deleteRegKeyRecursive_fuel n fault k path st = Some res"
  shows "erase_trace (k @ splitPath path) st res"
  using assms
proof (induction n arbitrary: k path st res)
  case 0
  then show ?case by simp
next
  case (Suc n)
  let ?P = "k @ splitPath path"
  obtain x st1 where o: "OpenKey fault st k path = (x, st1)"
    by (cases "OpenKey fault st k path")
  from adapter_call_log [OF o [unfolded OpenKey_def]] obtain ro
    where lo: "oplog st1 = oplog st @ [(OpOpenKey ?P, ro)]"
    by blast
  have step_o: "erase_trace ?P st1 res \<Longrightarrow> erase_trace ?P st res"
    by (rule erase_trace_step [OF lo]) simp_all
  have done_o: "erase_trace ?P st (r, st1)" for r
    unfolding erase_trace_def using lo by (intro exI [of _ "[(OpOpenKey ?P, ro)]"]) (simp add: postorder_def under_def)
  show ?case
  proof (cases x)
    case (Inl e)
    with o Suc.prems(2) have "snd res = st1" by (auto split: if_splits)
    with done_o [of "fst res"] show ?thesis
      by (simp add: erase_trace_def)
  next
    case (Inr key)
    note ok = OpenKey_Inr [OF o [unfolded Inr]]
    have w1: "wf_reg (reg st1)" using Suc.prems(1) ok(2) by simp
    obtain y st2 where l: "ReadSubKeyNames fault st1 key = (y, st2)"
      by (cases "ReadSubKeyNames fault st1 key")
    from adapter_call_log [OF l [unfolded ReadSubKeyNames_def]] obtain rl
      where ll: "oplog st2 = oplog st1 @ [(OpReadSubKeyNames key, rl)]"
      by blast
    have step_l: "erase_trace ?P st2 res \<Longrightarrow> erase_trace ?P st1 res"
      by (rule erase_trace_step [OF ll]) (simp_all add: ok(1))
    show ?thesis
    proof (cases y)
      case (Inl e)
      with o l \<open>x = Inr key\<close> Suc.prems(2) have "snd res = st2" by auto
      then have "erase_trace ?P st2 res"
        by (simp add: erase_trace_def postorder_def under_def)
      then show ?thesis by (intro step_o step_l)
    next
      case (Inr names)
      note rk = ReadSubKeyNames_Inr [OF l [unfolded Inr]]
      from rk ok obtain c where c: "lookup (reg st) ?P = Some c" "names = map fst (key_subkeys c)"
        by auto
      have w2: "wf_reg (reg st2)" using w1 rk(1) by simp
      have dn: "distinct names"
        using names_distinct [OF Suc.prems(1) c(1)] c(2) by simp
      from o l \<open>x = Inr key\<close> Inr Suc.prems(2) obtain r3 st3
        where d: "deleteSubKeys (deleteRegKeyRecursive_fuel n fault key) path names st2 = Some (r3, st3)"
        by (auto split: option.splits)
      have "\<exists>es. oplog (snd (r3, st3)) = oplog st2 @ es \<and> postorder es
           \<and> (\<forall>p \<in> set (delete_paths es). \<exists>m \<in> set names. prefix (?P @ [m]) p)
           \<and> under ?P es"
      proof (rule deleteSubKeys_trace [OF _ dn w2 d])
        fix name and s :: state and res'
        assume a: "name \<in> set names" "wf_reg (reg s)"
          "deleteRegKeyRecursive_fuel n fault key name s = Some res'"
        have sp: "splitPath name = [name]"
          using names_valid [OF Suc.prems(1) c(1)] a(1) c(2) by (simp add: splitPath_valid_name)
        from Suc.IH [OF a(2,3)] have "erase_trace (?P @ [name]) s res'"
          by (simp add: sp ok(1))
        moreover from deleteRegKeyRecursive_fuel_effect [OF a(3)] a(2) have "wf_reg (reg (snd res'))"
          by (simp add: erase_effect_def)
        ultimately show "erase_trace (?P @ [name]) s res' \<and> wf_reg (reg (snd res'))"
          by blast
      qed
      then obtain es3 where e3: "oplog st3 = oplog st2 @ es3" "postorder es3"
        "\<forall>p \<in> set (delete_paths es3). \<exists>m \<in> set names. prefix (?P @ [m]) p" "under ?P es3"
        by auto
      show ?thesis
      proof (cases r3)
        case (Some err)
        with o l d \<open>x = Inr key\<close> Inr Suc.prems(2) have "snd res = st3" by auto
        with e3 have "erase_trace ?P st2 res"
          unfolding erase_trace_def by blast
        then show ?thesis by (intro step_o step_l)
      next
        case None
        obtain z st4 where dk: "DeleteKey fault st3 k path = (z, st4)"
          by (cases "DeleteKey fault st3 k path")
        from adapter_call_log [OF dk [unfolded DeleteKey_def]] obtain rd
          where ld: "oplog st4 = oplog st3 @ [(OpDeleteKey ?P, rd)]"
          by blast
        from o l d dk \<open>x = Inr key\<close> Inr None Suc.prems(2) have r4: "snd res = st4"
          by (auto split: sum.splits if_splits)
        let ?es = "es3 @ [(OpDeleteKey ?P, rd)]"
        have "\<not> strict_prefix p ?P" if "p \<in> set (delete_paths es3)" for p
        proof -
          from e3(3) that obtain m where "prefix (?P @ [m]) p" by blast
          then show ?thesis by (rule below_not_above)
        qed
        then have "postorder ?es"
          using e3(2) by (simp add: postorder_def delete_paths_append descendants_first_append)
        moreover have "under ?P ?es"
          using e3(4) by (simp add: under_def)
        moreover have "oplog (snd res) = oplog st2 @ ?es"
          using r4 ld e3(1) by simp
        ultimately have "erase_trace ?P st2 res"
          unfolding erase_trace_def by blast
        then show ?thesis by (intro step_o step_l)
      qed
    qed
  qed
qed

lemma deleteSubKeys_wrapped:
  "deleteSubKeys rec path names st = Some (Some err, st')
     \<Longrightarrow> \<exists>w e. err = Wrap w e \<and> wrapping_path w = Some path"
proof (induction names arbitrary: st)
  case Nil
  then show ?case by simp
next
  case (Cons name rest)
  then obtain r1 st1 where c: "rec name st = Some (r1, st1)"
    by (auto split: option.splits)
  with Cons show ?case
    by (cases r1) auto
qed

lemma deleteRegKeyRecursive_fuel_wrapped:
  assumes "deleteRegKeyRecursive_fuel n fault k path st = Some (Some err, st')"
  shows "\<exists>w e. err = Wrap w e \<and> wrapping_path w = Some path"
proof (cases n)
  case 0
  with assms show ?thesis by simp
next
  case (Suc m)
  obtain x st1 where o: "OpenKey fault st k path = (x, st1)"
    by (cases "OpenKey fault st k path")
  show ?thesis
  proof (cases x)
    case (Inl e)
    with o assms Suc show ?thesis by (auto split: if_splits)
  next
    case (Inr key)
    obtain y st2 where l: "ReadSubKeyNames fault st1 key = (y, st2)"
      by (cases "ReadSubKeyNames fault st1 key")
    show ?thesis
    proof (cases y)
      case (Inl e)
      with o l \<open>x = Inr key\<close> assms Suc show ?thesis by auto
    next
      case (Inr names)
      from o l \<open>x = Inr key\<close> Inr assms Suc obtain r3 st3
        where d: "deleteSubKeys (deleteRegKeyRecursive_fuel m fault key) path names st2 = Some (r3, st3)"
        by (auto split: option.splits)
      show ?thesis
      proof (cases r3)
        case (Some e3)
        with o l d \<open>x = Inr key\<close> Inr assms Suc have "err = e3" "st' = st3" by auto
        with deleteSubKeys_wrapped [of _ path names st2 e3 st3] d Some show ?thesis by simp
      next
        case None
        obtain z st4 where dk: "DeleteKey fault st3 k path = (z, st4)"
          by (cases "DeleteKey fault st3 k path")
        from o l d dk \<open>x = Inr key\<close> Inr None assms Suc show ?thesis
          by (cases z) (auto split: if_splits)
      qed
    qed
  qed
qed

lemma deleteRegKeyRecursive_absent:
  assumes "lookup (reg st) (k @ splitPath path) = None"
    and "fault (OpOpenKey (k @ splitPath path)) = None"
  shows "deleteRegKeyRecursive fault k path st
           = Some (None, st\<lparr>oplog := oplog st @ [(OpOpenKey (k @ splitPath path), Some ENOENT)]\<rparr>)"
proof -
  obtain m where m: "height (reg st) = Suc m"
    using height_pos [of "reg st"] by (cases "height (reg st)") auto
  have "OpenKey fault st k path
          = (Inl ENOENT, st\<lparr>oplog := oplog st @ [(OpOpenKey (k @ splitPath path), Some ENOENT)]\<rparr>)"
    using assms by (simp add: OpenKey_def adapter_call_def)
  then show ?thesis
    by (simp add: deleteRegKeyRecursive_def m)
qed

lemma deleteRegKeyRecursive_summary:
  assumes "wf_reg (reg st)"
  shows "\<exists>r st' es. deleteRegKeyRecursive fault k path st = Some (r, st')
           \<and> oplog st' = oplog st @ es \<and> run_ok r es \<and> postorder es
           \<and> under (k @ splitPath path) es
           \<and> (\<forall>e. r = Some e \<longrightarrow> (\<exists>w e'. e = Wrap w e' \<and> wrapping_path w = Some path))"
proof -
  from deleteRegKeyRecursive_effect [OF assms, of fault k path] obtain r st'
    where d: "deleteRegKeyRecursive fault k path st = Some (r, st')"
      and e: "erase_effect (k @ splitPath path) st (r, st')"
    by blast
  from e obtain es where es: "oplog st' = oplog st @ es" "run_ok r es" "under (k @ splitPath path) es"
    by (auto simp: erase_effect_def)
  from deleteRegKeyRecursive_fuel_trace [OF assms d [unfolded deleteRegKeyRecursive_def]]
  obtain es' where es': "oplog st' = oplog st @ es'" "postorder es'"
    by (auto simp: erase_trace_def)
  from es(1) es'(1) have "es' = es" by simp
  with es' have p: "postorder es" by simp
  have "\<exists>w e'. e = Wrap w e' \<and> wrapping_path w = Some path" if "r = Some e" for e
    using deleteRegKeyRecursive_fuel_wrapped [OF d [unfolded deleteRegKeyRecursive_def that]] .
  with d es p show ?thesis by blast
qed


lemma wf_one_key_state: "wf_reg (reg one_key_state)"
  by (simp add: one_key_state_def wf_reg.simps valid_name_def bs_def)



text \<open>
  C7. Erasing a path that does not exist (the open itself not being made to fail) returns
  no error and leaves the registry as it was. On every well-formed registry the function
  returns, and it returns no error exactly when each registry call either succeeded or was a
  not-found reported by an open or by a delete: a not-found at these two points is
  tolerated, and nothing else is.
\<close>

theorem C7_not_found_tolerated:
  "(lookup (reg st) (k @ splitPath path) = None \<and> fault (OpOpenKey (k @ splitPath path)) = None
      \<longrightarrow> (\<exists>st'. deleteRegKeyRecursive fault k path st = Some (None, st') \<and> reg st' = reg st))
   \<and> (wf_reg (reg st)
      \<longrightarrow> (\<exists>r st' es. deleteRegKeyRecursive fault k path st = Some (r, st')
             \<and> oplog st' = oplog st @ es
             \<and> (r = None \<longleftrightarrow> list_all tolerated es)))"
proof (intro conjI impI)
  assume "lookup (reg st) (k @ splitPath path) = None \<and> fault (OpOpenKey (k @ splitPath path)) = None"
  then show "\<exists>st'. deleteRegKeyRecursive fault k path st = Some (None, st') \<and> reg st' = reg st"
    by (simp add: deleteRegKeyRecursive_absent)
next
  assume "wf_reg (reg st)"
  from deleteRegKeyRecursive_summary [OF this, of fault k path] obtain r st' es
    where s: "deleteRegKeyRecursive fault k path st = Some (r, st')"
      "oplog st' = oplog st @ es" "run_ok r es"
    by blast
  have "r = None \<longleftrightarrow> list_all tolerated es"
  proof (cases r)
    case None
    with s(3) show ?thesis by (simp add: run_ok_def)
  next
    case (Some e)
    with s(3) have "es \<noteq> []" "\<not> tolerated (last es)"
      by (simp_all add: run_ok_def)
    then have "\<not> list_all tolerated es"
      by (auto simp: list_all_iff)
    with Some show ?thesis by simp
  qed
  with s show "\<exists>r st' es. deleteRegKeyRecursive fault k path st = Some (r, st')
             \<and> oplog st' = oplog st @ es \<and> (r = None \<longleftrightarrow> list_all tolerated es)"
    by blast
qed

lemma erase_lost_race:
  "deleteRegKeyRecursive lost_race [] ''a'' one_key_state
     = Some (None,
             one_key_state\<lparr>oplog := [(OpOpenKey [''a''], None), (OpReadSubKeyNames [''a''], None),
                                      (OpDeleteKey [''a''], Some ENOENT)]\<rparr>)"
  by (simp add: deleteRegKeyRecursive_def one_key_state_def lost_race_def OpenKey_def
      ReadSubKeyNames_def DeleteKey_def adapter_call_def splitPath_def bs_def
      ENOENT_def numeral_2_eq_2)

theorem C7_not_found_tolerated_witness:
  "lookup (reg clean_state) ([] @ splitPath ''a'') = None
   \<and> (\<exists>st'. deleteRegKeyRecursive no_faults [] ''a'' clean_state = Some (None, st')
         \<and> reg st' = reg clean_state)
   \<and> wf_reg (reg one_key_state)
   \<and> (\<exists>st' es. deleteRegKeyRecursive lost_race [] ''a'' one_key_state = Some (None, st')
         \<and> oplog st' = oplog one_key_state @ es \<and> list_all tolerated es
         \<and> last es = (OpDeleteKey [''a''], Some ENOENT))"
proof -
  have l: "lookup (reg clean_state) ([] @ splitPath ''a'') = None"
    by (simp add: clean_state_def splitPath_def bs_def)
  have f: "no_faults (OpOpenKey ([] @ splitPath ''a'')) = None"
    by (simp add: no_faults_def)
  note t1 = C7_not_found_tolerated [of clean_state "[]" "''a''" no_faults]
  note t2 = C7_not_found_tolerated [of one_key_state "[]" "''a''" lost_race]
  from t1 l f have a: "\<exists>st'. deleteRegKeyRecursive no_faults [] ''a'' clean_state = Some (None, st')
         \<and> reg st' = reg clean_state"
    by blast
  from t2 wf_one_key_state erase_lost_race
  have b: "\<exists>st' es. deleteRegKeyRecursive lost_race [] ''a'' one_key_state = Some (None, st')
         \<and> oplog st' = oplog one_key_state @ es \<and> list_all tolerated es
         \<and> last es = (OpDeleteKey [''a''], Some ENOENT)"
    by (auto simp: one_key_state_def)
  from l a b wf_one_key_state show ?thesis by blast
qed

subsection \<open>A failing entry\<close>





subsection \<open>Creating an entry is determined at its key\<close>






















subsection \<open>The order of the entries\<close>

text \<open>
  The relation is reflexive, and it holds between any two lists that have the same entries
  and no identifier twice: every order of the entries of a map is covered.
\<close>

lemma reordered_all_refl:
  assumes "\<And>i c. (i, c) \<in> set xs \<Longrightarrow> reordered_menu c c"
  shows "reordered xs xs"
  using assms
proof (induction xs)
  case Nil
  show ?case by (rule reordered_Nil)
next
  case (Cons x xs)
  obtain i c where x: "x = (i, c)" by (cases x)
  have "reordered_menu c c" by (rule Cons.prems [of i]) (simp add: x)
  moreover have "reordered xs xs"
  proof (rule Cons.IH)
    fix j d assume "(j, d) \<in> set xs"
    then have "(j, d) \<in> set (x # xs)" by simp
    then show "reordered_menu d d" by (rule Cons.prems)
  qed
  ultimately show ?case unfolding x by (rule reordered_Cons)
qed

lemma reordered_menu_refl: "reordered_menu a a"
proof (induction a)
  case (ContextMenu ty ti ip ii ex ad cmd items)
  have "reordered items items"
  proof (rule reordered_all_refl)
    fix i c assume m: "(i, c) \<in> set items"
    have "c \<in> Basic_BNFs.snds (i, c)" by simp
    from ContextMenu.IH [OF m this] show "reordered_menu c c" .
  qed
  then show ?case by (rule reordered_Items)
qed

lemma reordered_refl: "reordered xs xs"
  by (rule reordered_all_refl) (rule reordered_menu_refl)

lemma reordered_move:
  assumes "i \<notin> fst ` set ys"
  shows "reordered ((i, a) # ys @ zs) (ys @ (i, a) # zs)"
  using assms
proof (induction ys)
  case Nil
  show ?case by (simp add: reordered_refl)
next
  case (Cons y ys)
  obtain j b where y: "y = (j, b)" by (cases y)
  from Cons.prems have ne: "i \<noteq> j" and rest: "i \<notin> fst ` set ys"
    by (auto simp: y)
  have "reordered ((i, a) # (j, b) # ys @ zs) ((j, b) # (i, a) # ys @ zs)"
    by (rule reordered_Swap [OF ne])
  moreover have "reordered ((j, b) # (i, a) # ys @ zs) ((j, b) # ys @ (i, a) # zs)"
    by (rule reordered_Cons [OF reordered_menu_refl Cons.IH [OF rest]])
  ultimately show ?case
    unfolding y by (simp add: reordered_Trans)
qed

lemma reordered_complete:
  assumes "distinct (map fst xs)" and "distinct (map fst ys)" and "set xs = set ys"
  shows "reordered xs ys"
  using assms
proof (induction xs arbitrary: ys)
  case Nil
  then show ?case by (simp add: reordered_Nil)
next
  case (Cons x xs)
  obtain i a where x: "x = (i, a)" by (cases x)
  from Cons.prems(3) have "x \<in> set ys" by auto
  then obtain ys1 ys2 where ys: "ys = ys1 @ x # ys2"
    by (auto dest: split_list)
  from Cons.prems(2) have d: "distinct (map fst (ys1 @ ys2))"
    and n1: "i \<notin> fst ` set ys1" and n2: "i \<notin> fst ` set ys2"
    by (auto simp: ys x)
  from Cons.prems(1) have dx: "distinct (map fst xs)" and nx: "i \<notin> fst ` set xs"
    by (auto simp: x)
  have "set xs = set (ys1 @ ys2)"
  proof -
    have "x \<notin> set xs" "x \<notin> set ys1" "x \<notin> set ys2"
      using nx n1 n2 by (force simp: x)+
    with Cons.prems(3) show ?thesis
      unfolding ys by auto
  qed
  from Cons.IH [OF dx d this] have "reordered xs (ys1 @ ys2)" .
  with reordered_menu_refl have "reordered ((i, a) # xs) ((i, a) # ys1 @ ys2)"
    by (rule reordered_Cons)
  from reordered_Trans [OF this reordered_move [OF n1]] show ?case
    by (simp add: ys x)
qed

















subsection \<open>Running twice\<close>




subsection \<open>What a run installs\<close>










subsection \<open>Where the order matters\<close>





end
